theory Spec2Isabelle
  imports Main "HOL-Library.FSet" "HOL-Library.Multiset"
begin

section \<open>The scan runner (scan-runner.ts, \<open>runScan\<close>)\<close>

subsection \<open>Options and state\<close>

text \<open>
  Heights, delays and counts are JavaScript numbers in the source; they are modelled as
  unbounded integers (\<open>int\<close>), which is what block heights and millisecond delays are
  below \<open>2^53\<close>. What \<open>runScan\<close> does before it resolves the start (\<open>getApi\<close>, \<open>openDb\<close>)
  is the collaborators' business and not modelled.

  The fields of \<open>RunScanOptions\<close> that \<open>runScan\<close> reads itself. The remaining fields
  (\<open>rpcEndpoints\<close>, \<open>dbPath\<close>, \<open>chain\<close>, \<open>logPrefix\<close>, \<open>useSegments\<close>) are only handed on to
  the block source, the database and the event sink. \<open>end\<close> is \<open>endHeight\<close> here.
\<close>

record RunScanOptions =
  start :: int
  endHeight :: int
  blockConcurrency :: int
  retryBackoffMs :: int
  retryMaxBackoffMs :: int

datatype error = CheckpointWriteError | MissingConfiguration

text \<open>
  Where a worker stands in its two nested loops: about to call \<open>getNextHeight\<close>;
  inside the \<open>try\<close> block for height \<open>h\<close> with the current \<open>backoff\<close>, waiting for the
  block source; past \<open>processXdmEvents\<close>, waiting for the commit mutex; in the \<open>catch\<close>
  block, waiting for \<open>sleep(backoff)\<close>; returned.
\<close>

datatype wstate =
    Idle
  | Fetching int int
  | Committing int int
  | Sleeping int int
  | Returned

text \<open>
  The variables the closures of \<open>runScan\<close> share (\<open>heightQueue\<close>, \<open>nextToCommit\<close>,
  \<open>completedHeights\<close>), the workers, and what the run does to the outside world: the
  checkpoint row of the chain in the database, and three logs, oldest entry first:
  \<open>writes\<close>, the heights passed to \<open>setLastProcessedBlockHeight\<close> calls that returned;
  \<open>sink\<close>, the calls of \<open>processXdmEvents\<close> with whether each returned normally;
  \<open>sleeps\<close>, the calls of \<open>sleep\<close> with the height being retried and the delay.
\<close>

record scan =
  heightQueue :: "int list"
  nextToCommit :: int
  completedHeights :: "int fset"
  checkpoint :: "int option"
  writes :: "int list"
  sink :: "(int \<times> bool) list"
  sleeps :: "(int \<times> int) list"
  workers :: "wstate list"

text \<open>
  What the collaborators do during one step of a worker: whether \<open>getBlockHash\<close>,
  \<open>getBlock\<close> and \<open>getEventsAt\<close> all resolve, whether \<open>processXdmEvents\<close> returns, and for
  which heights \<open>setLastProcessedBlockHeight\<close> returns rather than throws.
\<close>

record env =
  fetch_ok :: bool
  sink_ok :: bool
  write_ok :: "int \<Rightarrow> bool"

subsection \<open>Start resolution and the height queue\<close>

text \<open>
  \<open>Math.max(start, resumeFrom ?? start)\<close>, where \<open>resumeFrom\<close> is what
  \<open>getLastProcessedBlockHeight(db, chain)\<close> returned: \<open>None\<close> when the chain has no checkpoint
  row.
\<close>

definition scanStart :: "int \<Rightarrow> int option \<Rightarrow> int" where
  "scanStart st resumeFrom = max st (case resumeFrom of None \<Rightarrow> st | Some c \<Rightarrow> c)"

text \<open>
  Modelled from the spec: \<open>getLastProcessedBlockHeight\<close> and \<open>setLastProcessedBlockHeight\<close>
  are imported from \<open>./sqlite\<close>, which is not among the sources. The store keeps one height
  per chain: \<open>get\<close> returns it, or nothing when there is none, and \<open>set\<close> replaces it, or
  throws and leaves it. The run reads and writes the row of its own chain only, which is
  the field \<open>checkpoint\<close>; whether a \<open>set\<close> returns is decided outside the program, and is
  the argument \<open>ok\<close>.
\<close>

definition setLastProcessedBlockHeight :: "bool \<Rightarrow> int \<Rightarrow> scan \<Rightarrow> error + scan" where
  "setLastProcessedBlockHeight ok h s =
     (if ok then Inr (s\<lparr>checkpoint := Some h, writes := writes s @ [h]\<rparr>)
      else Inl CheckpointWriteError)"

text \<open>
  The state \<open>runScan\<close> builds before it starts the workers: the queue is
  \<open>Array.from({ length: Math.max(end - scanStart + 1, 0) }, (_, i) => scanStart + i)\<close>, and
  \<open>Array.from({ length: blockConcurrency }, () => worker())\<close> starts one worker per index.
  The checkpoint row holds what \<open>getLastProcessedBlockHeight\<close> has just read from it.
\<close>

definition init :: "RunScanOptions \<Rightarrow> int option \<Rightarrow> scan" where
  "init opts resumeFrom =
     (let st = scanStart (start opts) resumeFrom in
      \<lparr>heightQueue = map (\<lambda>i. st + int i) [0 ..< nat (max (endHeight opts - st + 1) 0)],
       nextToCommit = st,
       completedHeights = {||},
       checkpoint = resumeFrom,
       writes = [],
       sink = [],
       sleeps = [],
       workers = replicate (nat (blockConcurrency opts)) Idle\<rparr>)"

text \<open>\<open>heightQueue.length > 0 ? heightQueue.shift()! : null\<close>\<close>

definition getNextHeight :: "scan \<Rightarrow> int option \<times> scan" where
  "getNextHeight s =
     (case heightQueue s of
        [] \<Rightarrow> (None, s)
      | h # q \<Rightarrow> (Some h, s\<lparr>heightQueue := q\<rparr>))"

text \<open>Calling \<open>getNextHeight\<close> until it returns \<open>null\<close>: the heights issued, and the state left.\<close>

function drain :: "scan \<Rightarrow> int list \<times> scan" where
  "drain s =
     (case getNextHeight s of
        (None, s') \<Rightarrow> ([], s')
      | (Some h, s') \<Rightarrow> (case drain s' of (hs, s'') \<Rightarrow> (h # hs, s'')))"
  by pat_completeness auto
termination
proof (relation "measure (\<lambda>s. length (heightQueue s))")
  show "wf (measure (\<lambda>s. length (heightQueue s)))" by simp
next
  fix s s' :: scan and x1 :: "int option" and h :: int
  assume "(x1, s') = getNextHeight s" and "x1 = Some h"
  then have "getNextHeight s = (Some h, s')" by simp
  then have "length (heightQueue s') < length (heightQueue s)"
    by (auto simp: getNextHeight_def split: list.splits)
  then show "(s', s) \<in> measure (\<lambda>s. length (heightQueue s))" by simp
qed

declare drain.simps [simp del]

subsection \<open>The ordered commit tracker\<close>

text \<open>
  The loop of \<open>markCompleted\<close>:
  \<^verbatim>\<open>while (completedHeights.has(nextToCommit)) {
    completedHeights.delete(nextToCommit)
    setLastProcessedBlockHeight(db, chain, nextToCommit)
    nextToCommit += 1
  }\<close>
  A throwing write leaves the loop with the height already deleted from the set and the
  cursor not advanced. The result is the error thrown, if any, and the state left.
\<close>

function commit_loop :: "(int \<Rightarrow> bool) \<Rightarrow> scan \<Rightarrow> error option \<times> scan" where
  "commit_loop wr s =
     (if nextToCommit s |\<in>| completedHeights s then
        (let s1 = s\<lparr>completedHeights := completedHeights s |-| {|nextToCommit s|}\<rparr> in
         case setLastProcessedBlockHeight (wr (nextToCommit s1)) (nextToCommit s1) s1 of
           Inl e \<Rightarrow> (Some e, s1)
         | Inr s2 \<Rightarrow> commit_loop wr (s2\<lparr>nextToCommit := nextToCommit s2 + 1\<rparr>))
      else (None, s))"
  by pat_completeness auto
termination
proof (relation "measure (\<lambda>(wr, s). fcard (completedHeights s))")
  show "wf (measure (\<lambda>(wr, s). fcard (completedHeights s)))" by simp
next
  fix wr :: "int \<Rightarrow> bool" and s s1 s2 :: scan
  assume mem: "nextToCommit s |\<in>| completedHeights s"
    and s1: "s1 = s\<lparr>completedHeights := completedHeights s |-| {|nextToCommit s|}\<rparr>"
    and s2: "setLastProcessedBlockHeight (wr (nextToCommit s1)) (nextToCommit s1) s1 = Inr s2"
  have "fcard (completedHeights s |-| {|nextToCommit s|}) < fcard (completedHeights s)"
    using mem by (rule fcard_fminus1_less)
  moreover have "completedHeights s2 = completedHeights s |-| {|nextToCommit s|}"
    using s1 s2 by (auto simp: setLastProcessedBlockHeight_def split: if_splits)
  ultimately show "((wr, s2\<lparr>nextToCommit := nextToCommit s2 + 1\<rparr>), wr, s)
      \<in> measure (\<lambda>(wr, s). fcard (completedHeights s))"
    by simp
qed

declare commit_loop.simps [simp del]

text \<open>\<open>markCompleted(height)\<close>: the body run under the commit mutex.\<close>

definition markCompleted :: "(int \<Rightarrow> bool) \<Rightarrow> int \<Rightarrow> scan \<Rightarrow> error option \<times> scan" where
  "markCompleted wr height s =
     commit_loop wr (s\<lparr>completedHeights := finsert height (completedHeights s)\<rparr>)"

text \<open>
  A sequence of \<open>markCompleted\<close> calls, each with the behaviour of the checkpoint store
  during it; a call that throws leaves its state to the next one.
\<close>

definition marks :: "((int \<Rightarrow> bool) \<times> int) list \<Rightarrow> scan \<Rightarrow> scan" where
  "marks cs s = fold (\<lambda>c s. snd (markCompleted (fst c) (snd c) s)) cs s"

subsection \<open>The retrying worker and the run\<close>

definition set_worker :: "nat \<Rightarrow> wstate \<Rightarrow> scan \<Rightarrow> scan" where
  "set_worker i w s = s\<lparr>workers := (workers s)[i := w]\<rparr>"

text \<open>The \<open>catch\<close> block up to \<open>await sleep(backoff)\<close>.\<close>

definition catch_retry :: "nat \<Rightarrow> int \<Rightarrow> int \<Rightarrow> scan \<Rightarrow> scan" where
  "catch_retry i h backoff s =
     set_worker i (Sleeping h backoff) (s\<lparr>sleeps := sleeps s @ [(h, backoff)]\<rparr>)"

text \<open>
  One uninterrupted stretch of worker \<open>i\<close>, from one \<open>await\<close> to the next that lets other
  workers run. The three block source calls touch nothing shared and are one step; the
  event sink is called in the same stretch, synchronously, once they have resolved. The
  body of \<open>markCompleted\<close> runs in a stretch of its own, after the mutex is acquired, and
  its error, like any other raised inside \<open>try\<close>, is caught by the \<open>catch\<close> block. On
  waking, \<open>backoff = Math.min(backoff * 2, retryMaxBackoffMs)\<close> and the \<open>try\<close> block starts
  again for the same height. The mutex of \<open>createMutex\<close> runs the bodies one at a time, in
  the order of the calls, and releases in \<open>finally\<close>, also when a body throws; here any
  worker waiting to commit may be the next, which includes that order.
\<close>

fun worker_step :: "RunScanOptions \<Rightarrow> env \<Rightarrow> nat \<Rightarrow> wstate \<Rightarrow> scan \<Rightarrow> scan" where
  "worker_step opts e i Idle s =
     (case getNextHeight s of
        (None, s') \<Rightarrow> set_worker i Returned s'
      | (Some h, s') \<Rightarrow> set_worker i (Fetching h (retryBackoffMs opts)) s')"
| "worker_step opts e i (Fetching h backoff) s =
     (if \<not> fetch_ok e then catch_retry i h backoff s
      else if \<not> sink_ok e then catch_retry i h backoff (s\<lparr>sink := sink s @ [(h, False)]\<rparr>)
      else set_worker i (Committing h backoff) (s\<lparr>sink := sink s @ [(h, True)]\<rparr>))"
| "worker_step opts e i (Committing h backoff) s =
     (case markCompleted (write_ok e) h s of
        (None, s') \<Rightarrow> set_worker i Idle s'
      | (Some err, s') \<Rightarrow> catch_retry i h backoff s')"
| "worker_step opts e i (Sleeping h backoff) s =
     set_worker i (Fetching h (min (backoff * 2) (retryMaxBackoffMs opts))) s"
| "worker_step opts e i Returned s = s"

text \<open>A schedule names, step by step, the worker that runs and what its collaborators do.\<close>

definition step :: "RunScanOptions \<Rightarrow> nat \<times> env \<Rightarrow> scan \<Rightarrow> scan" where
  "step opts ev s =
     (if fst ev < length (workers s)
      then worker_step opts (snd ev) (fst ev) (workers s ! fst ev) s
      else s)"

definition run :: "RunScanOptions \<Rightarrow> (nat \<times> env) list \<Rightarrow> scan \<Rightarrow> scan" where
  "run opts evs s = fold (step opts) evs s"

text \<open>
  \<open>await Promise.all(...)\<close> resolves, and \<open>runScan\<close> with it, once every worker has
  returned; no worker ever rejects, since its loop catches every error.
\<close>

definition joined :: "scan \<Rightarrow> bool" where
  "joined s = list_all (\<lambda>w. w = Returned) (workers s)"

subsection \<open>What a run has done\<close>

text \<open>The heights for which \<open>processXdmEvents\<close> has returned normally.\<close>

definition processed :: "scan \<Rightarrow> int set" where
  "processed s = set (map fst (filter snd (sink s)))"

text \<open>The delays slept for height \<open>h\<close>, in the order of the \<open>sleep\<close> calls.\<close>

definition delays_for :: "int \<Rightarrow> (int \<times> int) list \<Rightarrow> int list" where
  "delays_for h sl = map snd (filter (\<lambda>p. fst p = h) sl)"

section \<open>The naive consensus capture (capture-consensus.ts)\<close>

text \<open>
  The result of \<open>Number(process.env.X)\<close>: \<open>NaN\<close> when the variable is unset or its text is
  not a numeric literal, the number otherwise; integers only, as heights are. A number is
  falsy when it is \<open>NaN\<close> or zero.
\<close>

datatype number = NaN | Num int

fun truthy :: "number \<Rightarrow> bool" where
  "truthy NaN = False"
| "truthy (Num n) = (n \<noteq> 0)"

text \<open>The number as a height; \<open>main\<close> uses it only past its check, where it is not \<open>NaN\<close>.\<close>

fun height_of :: "number \<Rightarrow> int" where
  "height_of (Num n) = n"
| "height_of NaN = 0"

text \<open>An array is an object, and every object is truthy: \<open>!rpcEndpoints\<close> is false.\<close>

definition truthy_array :: "'a list \<Rightarrow> bool" where
  "truthy_array xs = True"

text \<open>
  The constants of the module. \<open>BLOCK_CONCURRENCY\<close> is the value after
  \<open>Math.max(1, ...)\<close>.
\<close>

record settings =
  rpcEndpoints :: "string list"
  START :: number
  END :: number
  RETRY_BACKOFF_MS :: int
  RETRY_MAX_BACKOFF_MS :: int
  BLOCK_CONCURRENCY :: int

text \<open>
  A worker of this variant: about to call \<open>getNextHeight\<close>; inside \<open>try\<close> for a height,
  waiting for the block source; in \<open>catch\<close>, sleeping; returned.
\<close>

datatype cstate =
    CIdle
  | CFetching int int
  | CSleeping int int
  | CReturned

text \<open>
  The shared \<open>nextHeight\<close>, the checkpoint row with the log of the writes that returned,
  the calls of \<open>processXdmEvents\<close> with whether each returned, and the workers.
\<close>

record capture =
  nextHeight :: int
  stored :: "int option"
  stores :: "int list"
  sunk :: "(int \<times> bool) list"
  pool :: "cstate list"

text \<open>\<open>if (!rpcEndpoints || !START || !END) throw new Error(...)\<close>\<close>

definition missing_configuration :: "settings \<Rightarrow> bool" where
  "missing_configuration c \<longleftrightarrow>
     \<not> truthy_array (rpcEndpoints c) \<or> \<not> truthy (START c) \<or> \<not> truthy (END c)"

text \<open>What \<open>main\<close> sets up past the check, up to and including the start of the workers.\<close>

definition spawn :: "settings \<Rightarrow> int option \<Rightarrow> capture" where
  "spawn c resumeFrom =
     \<lparr>nextHeight = max (height_of (START c))
                       (case resumeFrom of None \<Rightarrow> height_of (START c) | Some k \<Rightarrow> k),
      stored = resumeFrom,
      stores = [],
      sunk = [],
      pool = replicate (nat (BLOCK_CONCURRENCY c)) CIdle\<rparr>"

definition main :: "settings \<Rightarrow> int option \<Rightarrow> error + capture" where
  "main c resumeFrom =
     (if missing_configuration c then Inl MissingConfiguration else Inr (spawn c resumeFrom))"

definition set_pool :: "nat \<Rightarrow> cstate \<Rightarrow> capture \<Rightarrow> capture" where
  "set_pool i w s = s\<lparr>pool := (pool s)[i := w]\<rparr>"

text \<open>
  One uninterrupted stretch of worker \<open>i\<close>. \<open>getNextHeight\<close> is synchronous here. Once the
  block source has answered, the worker writes the checkpoint if \<open>h % 100 === 0\<close> and then
  calls the event sink, all in one stretch; an error at any point lands in \<open>catch\<close>.
\<close>

fun capture_step :: "settings \<Rightarrow> env \<Rightarrow> nat \<Rightarrow> cstate \<Rightarrow> capture \<Rightarrow> capture" where
  "capture_step c e i CIdle s =
     (if nextHeight s > height_of (END c) then set_pool i CReturned s
      else set_pool i (CFetching (nextHeight s) (RETRY_BACKOFF_MS c))
             (s\<lparr>nextHeight := nextHeight s + 1\<rparr>))"
| "capture_step c e i (CFetching h backoff) s =
     (if \<not> fetch_ok e then set_pool i (CSleeping h backoff) s
      else if h mod 100 = 0 \<and> \<not> write_ok e h then set_pool i (CSleeping h backoff) s
      else
        (let s1 = (if h mod 100 = 0 then s\<lparr>stored := Some h, stores := stores s @ [h]\<rparr> else s)
         in if \<not> sink_ok e
            then set_pool i (CSleeping h backoff) (s1\<lparr>sunk := sunk s1 @ [(h, False)]\<rparr>)
            else set_pool i CIdle (s1\<lparr>sunk := sunk s1 @ [(h, True)]\<rparr>)))"
| "capture_step c e i (CSleeping h backoff) s =
     set_pool i (CFetching h (min (backoff * 2) (RETRY_MAX_BACKOFF_MS c))) s"
| "capture_step c e i CReturned s = s"

definition capture_run :: "settings \<Rightarrow> (nat \<times> env) list \<Rightarrow> capture \<Rightarrow> capture" where
  "capture_run c evs s =
     fold (\<lambda>ev s. if fst ev < length (pool s)
                   then capture_step c (snd ev) (fst ev) (pool s ! fst ev) s else s) evs s"

section \<open>Example runs\<close>

text \<open>The range \<open>[100, 105]\<close> with two workers.\<close>

definition example_opts :: RunScanOptions where
  "example_opts = \<lparr>start = 100, endHeight = 105, blockConcurrency = 2,
     retryBackoffMs = 1000, retryMaxBackoffMs = 10000\<rparr>"

text \<open>
  Collaborators that all succeed; a block source that fails; a checkpoint store that throws
  on the write of height \<open>k\<close>.
\<close>

definition ok_env :: env where
  "ok_env = \<lparr>fetch_ok = True, sink_ok = True, write_ok = (\<lambda>_. True)\<rparr>"

definition fetch_fails :: env where
  "fetch_fails = \<lparr>fetch_ok = False, sink_ok = True, write_ok = (\<lambda>_. True)\<rparr>"

definition write_fails_at :: "int \<Rightarrow> env" where
  "write_fails_at k = \<lparr>fetch_ok = True, sink_ok = True, write_ok = (\<lambda>h. h \<noteq> k)\<rparr>"

text \<open>
  Both workers take a height; worker 1 processes 101 and reports it while 100 is still in
  flight; then worker 0 processes 100 and waits to commit.
\<close>

definition example_schedule :: "(nat \<times> env) list" where
  "example_schedule = [(0, ok_env), (1, ok_env), (1, ok_env), (1, ok_env), (0, ok_env)]"

text \<open>The range \<open>[5, 6]\<close> with two workers.\<close>

definition retry_opts :: RunScanOptions where
  "retry_opts = \<lparr>start = 5, endHeight = 6, blockConcurrency = 2,
     retryBackoffMs = 1000, retryMaxBackoffMs = 10000\<rparr>"

text \<open>
  Worker 1 processes and commits height 6 first, and returns; worker 0 processes height 5,
  and during its commit the store writes 5 and throws on the write of 6.
\<close>

definition failing_schedule :: "(nat \<times> env) list" where
  "failing_schedule =
     [(0, ok_env), (1, ok_env), (1, ok_env), (1, ok_env), (1, ok_env), (0, ok_env),
      (0, write_fails_at 6)]"

text \<open>
  After that, worker 0 wakes, processes height 5 again, commits, and returns.
\<close>

definition retry_schedule :: "(nat \<times> env) list" where
  "retry_schedule = [(0, ok_env), (0, ok_env), (0, ok_env), (0, ok_env)]"

text \<open>
  Worker 0 alone: height 5 fails five times at the block source, then succeeds and is
  committed; height 6 fails once.
\<close>

definition backoff_schedule :: "(nat \<times> env) list" where
  "backoff_schedule =
     (0, ok_env) # concat (replicate 5 [(0, fetch_fails), (0, ok_env)])
       @ [(0, ok_env), (0, ok_env), (0, ok_env), (0, fetch_fails)]"

text \<open>Options whose base delay is above the maximum.\<close>

definition inverted_opts :: RunScanOptions where
  "inverted_opts = \<lparr>start = 5, endHeight = 5, blockConcurrency = 1,
     retryBackoffMs = 2000, retryMaxBackoffMs = 1000\<rparr>"

text \<open>
  A range \<open>[99, 100]\<close> with the default eight workers. Worker 0 takes height 99 and worker 1
  height 100; the block source answers worker 1 first.
\<close>

definition race_consts :: settings where
  "race_consts = \<lparr>rpcEndpoints = [''ws://node''], START = Num 99, END = Num 100,
     RETRY_BACKOFF_MS = 1000, RETRY_MAX_BACKOFF_MS = 10000, BLOCK_CONCURRENCY = 8\<rparr>"

definition race_schedule :: "(nat \<times> env) list" where
  "race_schedule = [(0, ok_env), (1, ok_env), (1, ok_env)]"

text \<open>
  The \<open>markCompleted\<close> calls of the run of \<open>failing_schedule\<close> and \<open>retry_schedule\<close>: height
  6 is reported first, then height 5, whose call throws on the write of 6, then height 5
  again by the retry.
\<close>

definition stalled_calls :: "((int \<Rightarrow> bool) \<times> int) list" where
  "stalled_calls = [(\<lambda>_. True, 6), (\<lambda>h. h \<noteq> 6, 5), (\<lambda>_. True, 5)]"

text \<open>
  The sibling case: the store throws on the write of the height being reported, 5, and the
  retry reports 5 again; then 6 is reported.
\<close>

definition recovered_calls :: "((int \<Rightarrow> bool) \<times> int) list" where
  "recovered_calls = [(\<lambda>h. h \<noteq> 5, 5), (\<lambda>_. True, 5), (\<lambda>_. True, 6)]"

section \<open>Invariants\<close>

text \<open>The height a worker is working on, if any.\<close>

fun holds :: "wstate \<Rightarrow> int set" where
  "holds (Fetching h b) = {h}"
| "holds (Committing h b) = {h}"
| "holds (Sleeping h b) = {h}"
| "holds Idle = {}"
| "holds Returned = {}"

text \<open>
  The value of \<open>backoff\<close> after \<open>n\<close> passes through the \<open>catch\<close> block: it starts as
  \<open>retryBackoffMs\<close> and each pass makes it \<open>Math.min(backoff * 2, retryMaxBackoffMs)\<close>.
\<close>

definition nth_backoff :: "RunScanOptions \<Rightarrow> nat \<Rightarrow> int" where
  "nth_backoff opts n = ((\<lambda>b. min (b * 2) (retryMaxBackoffMs opts)) ^^ n) (retryBackoffMs opts)"

text \<open>
  The state of the tracker between two calls, for a run that started at \<open>st\<close> and a set
  \<open>R\<close> of heights reported complete so far: the writes made are \<open>st, ..., nextToCommit - 1\<close>
  in this order, all of them and all heights waiting in the set were reported, and the
  cursor itself is not waiting.
\<close>

definition commit_inv :: "int \<Rightarrow> int set \<Rightarrow> scan \<Rightarrow> bool" where
  "commit_inv st R s \<longleftrightarrow>
     st \<le> nextToCommit s \<and> writes s = [st .. nextToCommit s - 1]
     \<and> {st ..< nextToCommit s} \<subseteq> R \<and> fset (completedHeights s) \<subseteq> R
     \<and> nextToCommit s |\<notin>| completedHeights s"

text \<open>When no write throws, a reported height at or above the cursor is waiting in the set.\<close>

definition all_pending :: "int set \<Rightarrow> scan \<Rightarrow> bool" where
  "all_pending R s \<longleftrightarrow> (\<forall>h \<in> R. nextToCommit s \<le> h \<longrightarrow> h |\<in>| completedHeights s)"

text \<open>
  What holds of every state of a run that started at \<open>st\<close> with the stored checkpoint \<open>r\<close>:
  the tracker invariant with the processed heights as the reported ones, a worker waiting
  to commit has had its height processed, and the checkpoint is the height below the
  cursor once the cursor has moved.
\<close>

definition run_inv :: "int \<Rightarrow> int option \<Rightarrow> scan \<Rightarrow> bool" where
  "run_inv st r s \<longleftrightarrow>
     commit_inv st (processed s) s
     \<and> (\<forall>h b. Committing h b \<in> set (workers s) \<longrightarrow> h \<in> processed s)
     \<and> checkpoint s = (if nextToCommit s = st then r else Some (nextToCommit s - 1))"

text \<open>
  The \<open>backoff\<close> variable of a worker agrees with the number of delays slept for its
  height; while it sleeps, the last of them is the one it sleeps for.
\<close>

fun backoff_ok :: "RunScanOptions \<Rightarrow> (int \<times> int) list \<Rightarrow> wstate \<Rightarrow> bool" where
  "backoff_ok opts sl (Fetching h b) = (b = nth_backoff opts (length (delays_for h sl)))"
| "backoff_ok opts sl (Committing h b) = (b = nth_backoff opts (length (delays_for h sl)))"
| "backoff_ok opts sl (Sleeping h b) =
     (delays_for h sl \<noteq> [] \<and> b = nth_backoff opts (length (delays_for h sl) - 1))"
| "backoff_ok opts sl Idle = True"
| "backoff_ok opts sl Returned = True"

text \<open>
  Every height is in the queue, in one worker's hands, or done; heights still queued have
  not been slept for; and the delays of every height are the successive values of
  \<open>backoff\<close>.
\<close>

definition backoff_inv :: "RunScanOptions \<Rightarrow> scan \<Rightarrow> bool" where
  "backoff_inv opts s \<longleftrightarrow>
     distinct (heightQueue s)
     \<and> (\<forall>i < length (workers s). holds (workers s ! i) \<inter> set (heightQueue s) = {})
     \<and> (\<forall>i < length (workers s). \<forall>j < length (workers s).
           i \<noteq> j \<longrightarrow> holds (workers s ! i) \<inter> holds (workers s ! j) = {})
     \<and> (\<forall>h \<in> set (heightQueue s). delays_for h (sleeps s) = [])
     \<and> (\<forall>i < length (workers s). backoff_ok opts (sleeps s) (workers s ! i))
     \<and> (\<forall>h. delays_for h (sleeps s) = map (nth_backoff opts) [0 ..< length (delays_for h (sleeps s))])"

section \<open>The commit loop and the tracker\<close>

text \<open>
  What one run of the loop does, whatever the checkpoint store does: the cursor moves
  forward over heights that were in the set, exactly those are written, in order, and
  removed; the loop stops at a height that is not in the set, or at a write that throws,
  with that height removed and not written.
\<close>

lemma commit_loop_effect:
  "commit_loop wr s = (r, s') \<Longrightarrow>
     nextToCommit s \<le> nextToCommit s'
     \<and> writes s' = writes s @ [nextToCommit s .. nextToCommit s' - 1]
     \<and> fset (completedHeights s') =
         fset (completedHeights s) - {nextToCommit s ..< nextToCommit s'}
           - (if r = None then {} else {nextToCommit s'})
     \<and> {nextToCommit s ..< nextToCommit s'} \<subseteq> fset (completedHeights s)
     \<and> (r = None \<longrightarrow> nextToCommit s' |\<notin>| completedHeights s)
     \<and> (r \<noteq> None \<longrightarrow> nextToCommit s' |\<in>| completedHeights s \<and> \<not> wr (nextToCommit s') \<and> r = Some CheckpointWriteError)
     \<and> (\<forall>j \<in> {nextToCommit s ..< nextToCommit s'}. wr j)
     \<and> checkpoint s' = (if nextToCommit s' = nextToCommit s then checkpoint s else Some (nextToCommit s' - 1))
     \<and> heightQueue s' = heightQueue s \<and> sink s' = sink s \<and> sleeps s' = sleeps s \<and> workers s' = workers s"
proof (induction wr s arbitrary: r s' rule: commit_loop.induct)
  case (1 wr s)
  show ?case
  proof (cases "nextToCommit s |\<in>| completedHeights s")
    case False
    with "1.prems" show ?thesis by (simp add: commit_loop.simps)
  next
    case mem: True
    define s1 where "s1 = s\<lparr>completedHeights := completedHeights s |-| {|nextToCommit s|}\<rparr>"
    show ?thesis
    proof (cases "wr (nextToCommit s)")
      case False
      with mem "1.prems" have "r = Some CheckpointWriteError" "s' = s1"
        by (auto simp: commit_loop.simps [of wr s] setLastProcessedBlockHeight_def s1_def)
      with mem False show ?thesis by (auto simp: s1_def)
    next
      case True
      define s2 where "s2 = s1\<lparr>checkpoint := Some (nextToCommit s), writes := writes s @ [nextToCommit s]\<rparr>"
      have w: "setLastProcessedBlockHeight (wr (nextToCommit s1)) (nextToCommit s1) s1 = Inr s2"
        using True by (simp add: setLastProcessedBlockHeight_def s1_def s2_def)
      define s3 where "s3 = s2\<lparr>nextToCommit := nextToCommit s2 + 1\<rparr>"
      have rec: "commit_loop wr s3 = (r, s')"
        using "1.prems" mem w by (simp add: commit_loop.simps [of wr s] s1_def [symmetric] s3_def)
      note IH = "1.IH" [OF mem s1_def w, unfolded s3_def [symmetric], OF rec]
      have c3: "nextToCommit s3 = nextToCommit s + 1" by (simp add: s3_def s2_def s1_def)
      have f3: "fset (completedHeights s3) = fset (completedHeights s) - {nextToCommit s}"
        by (simp add: s3_def s2_def s1_def)
      have w3: "writes s3 = writes s @ [nextToCommit s]" by (simp add: s3_def s2_def s1_def)
      have k3: "checkpoint s3 = Some (nextToCommit s)" by (simp add: s3_def s2_def s1_def)
      have o3: "heightQueue s3 = heightQueue s" "sink s3 = sink s" "sleeps s3 = sleeps s" "workers s3 = workers s"
        by (simp_all add: s3_def s2_def s1_def)
      from IH have le: "nextToCommit s + 1 \<le> nextToCommit s'" by (simp add: c3)
      have wr: "writes s' = writes s @ [nextToCommit s .. nextToCommit s' - 1]"
        using IH le by (simp add: c3 w3 upto_rec1 [of "nextToCommit s"])
      have iv: "{nextToCommit s ..< nextToCommit s'} = insert (nextToCommit s) {nextToCommit s + 1 ..< nextToCommit s'}"
        using le by auto
      show ?thesis
        using IH le mem True wr unfolding c3 f3 k3 o3 iv
        by auto
    qed
  qed
qed

lemma markCompleted_effect:
  assumes "markCompleted wr h s = (r, s')"
  shows "nextToCommit s \<le> nextToCommit s'
     \<and> writes s' = writes s @ [nextToCommit s .. nextToCommit s' - 1]
     \<and> fset (completedHeights s') =
         insert h (fset (completedHeights s)) - {nextToCommit s ..< nextToCommit s'}
           - (if r = None then {} else {nextToCommit s'})
     \<and> {nextToCommit s ..< nextToCommit s'} \<subseteq> insert h (fset (completedHeights s))
     \<and> (r = None \<longrightarrow> nextToCommit s' \<noteq> h \<and> nextToCommit s' |\<notin>| completedHeights s)
     \<and> (r \<noteq> None \<longrightarrow> \<not> wr (nextToCommit s') \<and> r = Some CheckpointWriteError)
     \<and> checkpoint s' = (if nextToCommit s' = nextToCommit s then checkpoint s else Some (nextToCommit s' - 1))
     \<and> heightQueue s' = heightQueue s \<and> sink s' = sink s \<and> sleeps s' = sleeps s \<and> workers s' = workers s"
  using commit_loop_effect [OF assms [unfolded markCompleted_def]] by simp

lemma upto_append_upto:
  "a \<le> b \<Longrightarrow> b \<le> c \<Longrightarrow> [a .. b - 1] @ [b .. c - 1] = [a .. c - (1::int)]"
proof (cases "a = b \<or> b = c")
  case True
  then show ?thesis by auto
next
  case False
  assume "a \<le> b" "b \<le> c"
  with False show ?thesis using upto_split2 [of a "b - 1" "c - 1"] by simp
qed

lemma commit_inv_markCompleted:
  assumes inv: "commit_inv st R s" and m: "markCompleted wr h s = (r, s')"
  shows "commit_inv st (insert h R) s'"
proof -
  note e = markCompleted_effect [OF m]
  from inv have st: "st \<le> nextToCommit s" and w: "writes s = [st .. nextToCommit s - 1]"
    and p: "{st ..< nextToCommit s} \<subseteq> R" and c: "fset (completedHeights s) \<subseteq> R"
    and n: "nextToCommit s |\<notin>| completedHeights s"
    by (simp_all add: commit_inv_def)
  have "writes s' = [st .. nextToCommit s' - 1]"
    using e st w by (simp add: upto_append_upto)
  moreover have "{st ..< nextToCommit s'} \<subseteq> insert h R"
  proof
    fix j assume "j \<in> {st ..< nextToCommit s'}"
    then have "j \<in> {st ..< nextToCommit s} \<or> j \<in> {nextToCommit s ..< nextToCommit s'}" by auto
    then show "j \<in> insert h R" using p c e by auto
  qed
  moreover have "fset (completedHeights s') \<subseteq> insert h R" using e c by auto
  moreover have "nextToCommit s' |\<notin>| completedHeights s'"
    using e by (cases "r = None") auto
  ultimately show ?thesis using e st by (simp add: commit_inv_def)
qed

lemma marks_Cons: "marks (c # cs) s = marks cs (snd (markCompleted (fst c) (snd c) s))"
  by (simp add: marks_def)

lemma commit_inv_marks:
  "commit_inv st R s \<Longrightarrow> commit_inv st (R \<union> snd ` set cs) (marks cs s)"
proof (induction cs arbitrary: R s)
  case Nil
  then show ?case by (simp add: marks_def)
next
  case (Cons c cs)
  obtain r s' where m: "markCompleted (fst c) (snd c) s = (r, s')" by force
  from commit_inv_markCompleted [OF Cons.prems m]
  have "commit_inv st (insert (snd c) R \<union> snd ` set cs) (marks cs s')"
    by (rule Cons.IH)
  then show ?case by (simp add: marks_Cons m)
qed

lemma commit_inv_init: "commit_inv (scanStart (start opts) r) {} (init opts r)"
  by (simp add: commit_inv_def init_def Let_def)

lemma all_pending_markCompleted:
  assumes a: "all_pending R s" and m: "markCompleted wr h s = (None, s')"
  shows "all_pending (insert h R) s'"
  unfolding all_pending_def
proof (intro ballI impI)
  note e = markCompleted_effect [OF m]
  fix j assume j: "j \<in> insert h R" and le: "nextToCommit s' \<le> j"
  from e le have "nextToCommit s \<le> j" by simp
  with j a have "j \<in> insert h (fset (completedHeights s))" by (auto simp: all_pending_def)
  with e le show "j |\<in>| completedHeights s'" by auto
qed

lemma markCompleted_succeeds:
  "(\<And>j. wr j) \<Longrightarrow> fst (markCompleted wr h s) = None"
  using markCompleted_effect [of wr h s "fst (markCompleted wr h s)" "snd (markCompleted wr h s)"]
  by auto

lemma all_pending_marks:
  "all_pending R s \<Longrightarrow> all_pending (R \<union> set hs) (marks (map (Pair (\<lambda>_. True)) hs) s)"
proof (induction hs arbitrary: R s)
  case Nil
  then show ?case by (simp add: marks_def)
next
  case (Cons h hs)
  obtain s' where m: "markCompleted (\<lambda>_. True) h s = (None, s')"
    using markCompleted_succeeds [of "\<lambda>_. True" h s] by (cases "markCompleted (\<lambda>_. True) h s") auto
  from all_pending_markCompleted [OF Cons.prems m]
  have "all_pending (insert h R \<union> set hs) (marks (map (Pair (\<lambda>_. True)) hs) s')"
    by (rule Cons.IH)
  then show ?case by (simp add: marks_Cons m)
qed

lemma checkpoint_marks:
  "checkpoint (marks cs s) =
     (if nextToCommit (marks cs s) = nextToCommit s then checkpoint s
      else Some (nextToCommit (marks cs s) - 1))
   \<and> nextToCommit s \<le> nextToCommit (marks cs s)"
proof (induction cs arbitrary: s)
  case Nil
  then show ?case by (simp add: marks_def)
next
  case (Cons c cs)
  obtain r s' where m: "markCompleted (fst c) (snd c) s = (r, s')" by force
  note e = markCompleted_effect [OF m]
  show ?case using Cons.IH [of s'] e by (auto simp: marks_Cons m)
qed

section \<open>The height queue\<close>

lemma heightQueue_init:
  "heightQueue (init opts r) = [scanStart (start opts) r .. endHeight opts]"
proof -
  have upto_map: "map (\<lambda>i. a + int i) [0 ..< nat (max (b - a + 1) 0)] = [a .. b]" for a b :: int
  proof (induction "nat (b - a + 1)" arbitrary: a)
    case 0
    then show ?case by simp
  next
    case (Suc n)
    then have le: "a \<le> b" and n: "n = nat (b - (a + 1) + 1)" by linarith+
    have "[0 ..< nat (max (b - a + 1) 0)] = 0 # map Suc [0 ..< nat (max (b - (a + 1) + 1) 0)]"
      using le by (metis Suc.hyps(2) n map_Suc_upt max.absorb1 max.cobounded2 nat_0_iff
          upt_conv_Cons zero_less_Suc max.commute max_def)
    then have "map (\<lambda>i. a + int i) [0 ..< nat (max (b - a + 1) 0)]
        = a # map (\<lambda>i. (a + 1) + int i) [0 ..< nat (max (b - (a + 1) + 1) 0)]"
      by (simp add: comp_def)
    also have "\<dots> = a # [a + 1 .. b]"
      using Suc.hyps(1) [OF n] by simp
    also have "\<dots> = [a .. b]"
      using le by (simp add: upto_rec1)
    finally show ?case .
  qed
  show ?thesis by (simp add: init_def Let_def upto_map)
qed

lemma drain_queue:
  "drain s = (heightQueue s, s\<lparr>heightQueue := []\<rparr>)"
proof (induction "heightQueue s" arbitrary: s)
  case Nil
  then show ?case by (subst drain.simps) (simp add: getNextHeight_def)
next
  case (Cons h q)
  from Cons.hyps(2) have q: "heightQueue s = h # q" by simp
  have "q = heightQueue (s\<lparr>heightQueue := q\<rparr>)" by simp
  from Cons.hyps(1) [OF this]
  have "drain (s\<lparr>heightQueue := q\<rparr>) = (q, s\<lparr>heightQueue := []\<rparr>)" by simp
  then show ?case using q by (subst drain.simps) (simp add: getNextHeight_def)
qed

lemma init_example:
  "init example_opts None =
     \<lparr>heightQueue = [100, 101, 102, 103, 104, 105], nextToCommit = 100,
      completedHeights = {||}, checkpoint = None, writes = [], sink = [], sleeps = [],
      workers = [Idle, Idle]\<rparr>"
  by (simp add: init_def example_opts_def scanStart_def Let_def upt_rec eval_nat_numeral)

section \<open>The steps of a run\<close>

lemma processed_iff: "h \<in> processed s \<longleftrightarrow> (h, True) \<in> set (sink s)"
  by (force simp: processed_def)

lemma commit_inv_cong:
  "nextToCommit s' = nextToCommit s \<Longrightarrow> writes s' = writes s
   \<Longrightarrow> completedHeights s' = completedHeights s \<Longrightarrow> R \<subseteq> R'
   \<Longrightarrow> commit_inv st R s \<Longrightarrow> commit_inv st R' s'"
  by (auto simp: commit_inv_def)

lemma step_not_committing:
  assumes "\<forall>h b. workers s ! fst ev \<noteq> Committing h b"
  shows "nextToCommit (step opts ev s) = nextToCommit s
     \<and> completedHeights (step opts ev s) = completedHeights s
     \<and> writes (step opts ev s) = writes s
     \<and> checkpoint (step opts ev s) = checkpoint s"
proof (cases "fst ev < length (workers s)")
  case False
  then show ?thesis by (simp add: step_def)
next
  case True
  with assms show ?thesis
    by (cases "workers s ! fst ev")
      (auto simp: step_def set_worker_def catch_retry_def getNextHeight_def split: list.splits)
qed

lemma step_committing:
  assumes i: "fst ev < length (workers s)" and w: "workers s ! fst ev = Committing h b"
    and m: "markCompleted (write_ok (snd ev)) h s = (res, s')"
  shows "step opts ev s =
     (if res = None then set_worker (fst ev) Idle s' else catch_retry (fst ev) h b s')"
  using assms by (auto simp: step_def)

lemma step_cursor:
  "nextToCommit s \<le> nextToCommit (step opts ev s)
   \<and> writes (step opts ev s) = writes s @ [nextToCommit s .. nextToCommit (step opts ev s) - 1]"
proof (cases "fst ev < length (workers s) \<and> (\<exists>h b. workers s ! fst ev = Committing h b)")
  case False
  then have "\<forall>h b. workers s ! fst ev \<noteq> Committing h b \<or> \<not> fst ev < length (workers s)" by auto
  then have "nextToCommit (step opts ev s) = nextToCommit s \<and> writes (step opts ev s) = writes s"
    using step_not_committing [of s ev opts] by (cases "fst ev < length (workers s)") (auto simp: step_def)
  then show ?thesis by simp
next
  case True
  then obtain h b where i: "fst ev < length (workers s)" and w: "workers s ! fst ev = Committing h b"
    by auto
  obtain res s' where m: "markCompleted (write_ok (snd ev)) h s = (res, s')" by force
  note e = markCompleted_effect [OF m]
  show ?thesis
    using e by (simp add: step_committing [OF i w m] set_worker_def catch_retry_def)
qed

lemma committing_update:
  assumes "\<forall>h b. Committing h b \<in> set ws \<longrightarrow> P h" and "\<forall>h b. w = Committing h b \<longrightarrow> P h"
  shows "\<forall>h b. Committing h b \<in> set (ws[i := w]) \<longrightarrow> P h"
proof (intro allI impI)
  fix h b assume "Committing h b \<in> set (ws[i := w])"
  then have "Committing h b \<in> insert w (set ws)"
    using set_update_subset_insert [of ws i w] by blast
  with assms show "P h" by auto
qed

lemma run_inv_frame:
  assumes inv: "run_inv st r s"
    and same: "nextToCommit s' = nextToCommit s" "writes s' = writes s"
      "completedHeights s' = completedHeights s" "checkpoint s' = checkpoint s"
    and sink: "set (sink s) \<subseteq> set (sink s')"
    and ws: "workers s' = (workers s)[i := w]"
    and w: "\<forall>h b. w = Committing h b \<longrightarrow> (h, True) \<in> set (sink s')"
  shows "run_inv st r s'"
proof -
  from sink have sub: "processed s \<subseteq> processed s'" by (auto simp: processed_iff)
  from inv have "commit_inv st (processed s) s" by (simp add: run_inv_def)
  then have "commit_inv st (processed s') s'"
    using same sub by (auto simp: commit_inv_def)
  moreover have "\<forall>h b. Committing h b \<in> set (workers s') \<longrightarrow> h \<in> processed s'"
    unfolding ws
  proof (rule committing_update)
    show "\<forall>h b. Committing h b \<in> set (workers s) \<longrightarrow> h \<in> processed s'"
      using inv sub by (auto simp: run_inv_def)
    show "\<forall>h b. w = Committing h b \<longrightarrow> h \<in> processed s'"
      using w by (simp add: processed_iff)
  qed
  moreover have "checkpoint s' = (if nextToCommit s' = st then r else Some (nextToCommit s' - 1))"
    using inv same by (simp add: run_inv_def)
  ultimately show ?thesis by (simp add: run_inv_def)
qed

lemma run_inv_markCompleted:
  assumes inv: "run_inv st r s" and h: "(h, True) \<in> set (sink s)"
    and m: "markCompleted wr h s = (res, s')"
  shows "run_inv st r s'"
proof -
  note e = markCompleted_effect [OF m]
  from inv have ci: "commit_inv st (processed s) s" by (simp add: run_inv_def)
  from h have "insert h (processed s) = processed s" by (auto simp: processed_iff)
  with commit_inv_markCompleted [OF ci m] have "commit_inv st (processed s) s'" by simp
  moreover have p: "processed s' = processed s" using e by (simp add: processed_def)
  moreover have "checkpoint s' = (if nextToCommit s' = st then r else Some (nextToCommit s' - 1))"
    using e inv ci by (auto simp: run_inv_def commit_inv_def)
  ultimately show ?thesis using inv e by (simp add: run_inv_def)
qed

lemma run_inv_step:
  assumes inv: "run_inv st r s"
  shows "run_inv st r (step opts ev s)"
proof (cases "fst ev < length (workers s)")
  case False
  with inv show ?thesis by (simp add: step_def)
next
  case i: True
  show ?thesis
  proof (cases "workers s ! fst ev")
    case Idle
    show ?thesis
    proof (cases "heightQueue s")
      case Nil
      with i Idle have "step opts ev s = set_worker (fst ev) Returned s"
        by (simp add: step_def getNextHeight_def)
      with inv show ?thesis
        by (auto intro!: run_inv_frame [OF inv, where i = "fst ev" and w = Returned]
            simp: set_worker_def)
    next
      case (Cons h q)
      with i Idle have "step opts ev s =
          set_worker (fst ev) (Fetching h (retryBackoffMs opts)) (s\<lparr>heightQueue := q\<rparr>)"
        by (simp add: step_def getNextHeight_def)
      then show ?thesis
        by (auto intro!: run_inv_frame [OF inv, where i = "fst ev"
              and w = "Fetching h (retryBackoffMs opts)"] simp: set_worker_def)
    qed
  next
    case (Fetching h b)
    with i have st: "step opts ev s = worker_step opts (snd ev) (fst ev) (Fetching h b) s"
      by (simp add: step_def)
    show ?thesis
    proof (cases "fetch_ok (snd ev) \<and> sink_ok (snd ev)")
      case True
      then show ?thesis unfolding st
        by (auto intro!: run_inv_frame [OF inv, where i = "fst ev" and w = "Committing h b"]
            simp: set_worker_def)
    next
      case False
      then show ?thesis unfolding st
        by (auto intro!: run_inv_frame [OF inv, where i = "fst ev" and w = "Sleeping h b"]
            simp: set_worker_def catch_retry_def)
    qed
  next
    case (Committing h b)
    obtain res s' where m: "markCompleted (write_ok (snd ev)) h s = (res, s')" by force
    from i Committing have "Committing h b \<in> set (workers s)" by (metis nth_mem)
    with inv have hp: "(h, True) \<in> set (sink s)" by (auto simp: run_inv_def processed_iff)
    note inv' = run_inv_markCompleted [OF inv hp m]
    note e = markCompleted_effect [OF m]
    show ?thesis
    proof (cases "res = None")
      case True
      then show ?thesis unfolding step_committing [OF i Committing m] using e
        by (auto intro!: run_inv_frame [OF inv', where i = "fst ev" and w = Idle]
            simp: set_worker_def)
    next
      case False
      then show ?thesis unfolding step_committing [OF i Committing m] using e
        by (auto intro!: run_inv_frame [OF inv', where i = "fst ev" and w = "Sleeping h b"]
            simp: set_worker_def catch_retry_def)
    qed
  next
    case (Sleeping h b)
    with i have "step opts ev s =
        set_worker (fst ev) (Fetching h (min (b * 2) (retryMaxBackoffMs opts))) s"
      by (simp add: step_def)
    then show ?thesis
      by (auto intro!: run_inv_frame [OF inv, where i = "fst ev"
            and w = "Fetching h (min (b * 2) (retryMaxBackoffMs opts))"] simp: set_worker_def)
  next
    case Returned
    with i inv show ?thesis by (simp add: step_def)
  qed
qed

lemma run_snoc: "run opts (evs @ [ev]) s = step opts ev (run opts evs s)"
  by (simp add: run_def)

lemma run_inv_run: "run_inv st r s \<Longrightarrow> run_inv st r (run opts evs s)"
  by (induction evs rule: rev_induct) (simp_all add: run_def run_inv_step)

lemma run_inv_init: "run_inv (scanStart (start opts) r) r (init opts r)"
  using commit_inv_init [of opts r]
  by (auto simp: run_inv_def processed_iff init_def Let_def commit_inv_def)

lemma run_inv_reachable:
  "run_inv (scanStart (start opts) r) r (run opts evs (init opts r))"
  by (rule run_inv_run [OF run_inv_init])

lemma step_empty_queue:
  assumes q: "heightQueue s = []" and ws: "\<forall>w \<in> set (workers s). w = Idle \<or> w = Returned"
  shows "step opts ev s = s\<lparr>workers := (workers s)[fst ev := Returned]\<rparr>"
proof (cases "fst ev < length (workers s)")
  case False
  then show ?thesis by (simp add: step_def list_update_beyond)
next
  case True
  with ws have "workers s ! fst ev = Idle \<or> workers s ! fst ev = Returned" by simp
  then show ?thesis
  proof
    assume "workers s ! fst ev = Idle"
    with True q show ?thesis by (simp add: step_def getNextHeight_def set_worker_def)
  next
    assume r: "workers s ! fst ev = Returned"
    then have "(workers s)[fst ev := Returned] = workers s"
      by (metis list_update_id)
    with True r show ?thesis by (simp add: step_def)
  qed
qed

lemma run_empty_queue:
  assumes q: "heightQueue s = []" and ws: "\<forall>w \<in> set (workers s). w = Idle"
  shows "\<exists>ws'. run opts evs s = s\<lparr>workers := ws'\<rparr> \<and> length ws' = length (workers s)
     \<and> (\<forall>i < length ws'. (i \<in> fst ` set evs \<longrightarrow> ws' ! i = Returned) \<and> (i \<notin> fst ` set evs \<longrightarrow> ws' ! i = Idle))"
proof (induction evs rule: rev_induct)
  case Nil
  have "run opts [] s = s\<lparr>workers := workers s\<rparr>" by (simp add: run_def)
  with ws show ?case by (metis empty_iff image_empty list.set(1) nth_mem)
next
  case (snoc ev evs)
  then obtain ws' where r: "run opts evs s = s\<lparr>workers := ws'\<rparr>"
    and l: "length ws' = length (workers s)"
    and e: "\<forall>i < length ws'. (i \<in> fst ` set evs \<longrightarrow> ws' ! i = Returned) \<and> (i \<notin> fst ` set evs \<longrightarrow> ws' ! i = Idle)"
    by blast
  have all: "\<forall>w \<in> set (workers (s\<lparr>workers := ws'\<rparr>)). w = Idle \<or> w = Returned"
    using e by (auto simp: in_set_conv_nth)
  have "run opts (evs @ [ev]) s = step opts ev (s\<lparr>workers := ws'\<rparr>)"
    by (simp add: run_snoc r)
  also have "\<dots> = s\<lparr>workers := ws'[fst ev := Returned]\<rparr>"
    using step_empty_queue [OF _ all, of opts ev] q by simp
  finally have "run opts (evs @ [ev]) s = s\<lparr>workers := ws'[fst ev := Returned]\<rparr>" .
  moreover have "\<forall>i < length (ws'[fst ev := Returned]).
      (i \<in> fst ` set (evs @ [ev]) \<longrightarrow> ws'[fst ev := Returned] ! i = Returned)
      \<and> (i \<notin> fst ` set (evs @ [ev]) \<longrightarrow> ws'[fst ev := Returned] ! i = Idle)"
  proof (intro allI impI)
    fix i assume "i < length (ws'[fst ev := Returned])"
    then have i: "i < length ws'" by simp
    have mem: "i \<in> fst ` set (evs @ [ev]) \<longleftrightarrow> i = fst ev \<or> i \<in> fst ` set evs" by auto
    show "(i \<in> fst ` set (evs @ [ev]) \<longrightarrow> ws'[fst ev := Returned] ! i = Returned)
      \<and> (i \<notin> fst ` set (evs @ [ev]) \<longrightarrow> ws'[fst ev := Returned] ! i = Idle)"
      unfolding mem using e i by (cases "i = fst ev") (simp_all add: nth_list_update)
  qed
  ultimately show ?case using l by (intro exI [of _ "ws'[fst ev := Returned]"]) simp
qed

section \<open>The backoff of a height\<close>

lemma delays_for_snoc:
  "delays_for h' (sl @ [(h, b)]) = (if h' = h then delays_for h' sl @ [b] else delays_for h' sl)"
  by (simp add: delays_for_def)

lemma nth_backoff_Suc:
  "nth_backoff opts (Suc n) = min (nth_backoff opts n * 2) (retryMaxBackoffMs opts)"
  by (simp add: nth_backoff_def)

lemma backoff_ok_other:
  "h \<notin> holds w \<Longrightarrow> backoff_ok opts (sl @ [(h, b)]) w = backoff_ok opts sl w"
  by (cases w) (simp_all add: delays_for_snoc)

text \<open>A step of worker \<open>i\<close> that does not sleep and takes no new height.\<close>

lemma backoff_inv_move:
  assumes inv: "backoff_inv opts s" and i: "i < length (workers s)"
    and ws: "workers s' = (workers s)[i := w]"
    and same: "sleeps s' = sleeps s" "heightQueue s' = heightQueue s"
    and sub: "holds w \<subseteq> holds (workers s ! i)"
    and ok: "backoff_ok opts (sleeps s) w"
  shows "backoff_inv opts s'"
proof -
  have nth: "\<And>k. k < length (workers s) \<Longrightarrow>
      workers s' ! k = (if k = i then w else workers s ! k)"
    by (simp add: ws nth_list_update)
  have hsub: "\<And>k. k < length (workers s) \<Longrightarrow> holds (workers s' ! k) \<subseteq> holds (workers s ! k)"
    using sub by (simp add: nth)
  have len: "length (workers s') = length (workers s)" by (simp add: ws)
  from inv have q: "\<forall>k < length (workers s). holds (workers s ! k) \<inter> set (heightQueue s) = {}"
    and d: "\<forall>k < length (workers s). \<forall>j < length (workers s).
           k \<noteq> j \<longrightarrow> holds (workers s ! k) \<inter> holds (workers s ! j) = {}"
    and b: "\<forall>k < length (workers s). backoff_ok opts (sleeps s) (workers s ! k)"
    by (simp_all add: backoff_inv_def)
  have "\<forall>k < length (workers s). holds (workers s' ! k) \<inter> set (heightQueue s) = {}"
    using q hsub by blast
  moreover have "\<forall>k < length (workers s). \<forall>j < length (workers s).
           k \<noteq> j \<longrightarrow> holds (workers s' ! k) \<inter> holds (workers s' ! j) = {}"
    using d hsub by blast
  moreover have "\<forall>k < length (workers s). backoff_ok opts (sleeps s) (workers s' ! k)"
    using b ok by (simp add: nth)
  ultimately show ?thesis
    using inv by (simp add: backoff_inv_def same len)
qed

text \<open>Worker \<open>i\<close> takes the head of the queue.\<close>

lemma backoff_inv_alloc:
  assumes inv: "backoff_inv opts s" and i: "i < length (workers s)"
    and idle: "workers s ! i = Idle" and q: "heightQueue s = h # q"
  shows "backoff_inv opts
     (s\<lparr>heightQueue := q, workers := (workers s)[i := Fetching h (retryBackoffMs opts)]\<rparr>)"
proof -
  let ?w = "Fetching h (retryBackoffMs opts)"
  have nth: "\<And>k. k < length (workers s) \<Longrightarrow>
      (workers s)[i := ?w] ! k = (if k = i then ?w else workers s ! k)"
    by (simp add: nth_list_update)
  from inv q have dq: "distinct q" and hq: "h \<notin> set q"
    and wq: "\<forall>k < length (workers s). holds (workers s ! k) \<inter> set (h # q) = {}"
    and d: "\<forall>k < length (workers s). \<forall>j < length (workers s).
           k \<noteq> j \<longrightarrow> holds (workers s ! k) \<inter> holds (workers s ! j) = {}"
    and e: "\<forall>h' \<in> set (h # q). delays_for h' (sleeps s) = []"
    and b: "\<forall>k < length (workers s). backoff_ok opts (sleeps s) (workers s ! k)"
    by (simp_all add: backoff_inv_def)
  have 1: "\<forall>k < length (workers s). holds ((workers s)[i := ?w] ! k) \<inter> set q = {}"
    using wq hq by (auto simp: nth)
  have 2: "\<forall>k < length (workers s). \<forall>j < length (workers s).
      k \<noteq> j \<longrightarrow> holds ((workers s)[i := ?w] ! k) \<inter> holds ((workers s)[i := ?w] ! j) = {}"
  proof (intro allI impI)
    fix k j assume k: "k < length (workers s)" and j: "j < length (workers s)" and ne: "k \<noteq> j"
    have "h \<notin> holds (workers s ! k)" "h \<notin> holds (workers s ! j)" using wq k j by auto
    with d k j ne show "holds ((workers s)[i := ?w] ! k) \<inter> holds ((workers s)[i := ?w] ! j) = {}"
      by (auto simp: nth)
  qed
  have 3: "\<forall>k < length (workers s). backoff_ok opts (sleeps s) ((workers s)[i := ?w] ! k)"
    using b e by (simp add: nth nth_backoff_def)
  from inv dq 1 2 3 e show ?thesis by (simp add: backoff_inv_def)
qed

text \<open>Worker \<open>i\<close> catches an error for its height \<open>h\<close> and goes to sleep.\<close>

lemma backoff_inv_catch:
  assumes inv: "backoff_inv opts s" and i: "i < length (workers s)"
    and w: "workers s ! i = Fetching h b \<or> workers s ! i = Committing h b"
    and s': "sleeps s' = sleeps s @ [(h, b)]" "heightQueue s' = heightQueue s"
      "workers s' = (workers s)[i := Sleeping h b]"
  shows "backoff_inv opts s'"
proof -
  have nth: "\<And>k. k < length (workers s) \<Longrightarrow>
      workers s' ! k = (if k = i then Sleeping h b else workers s ! k)"
    by (simp add: s' nth_list_update)
  have len: "length (workers s') = length (workers s)" by (simp add: s')
  from w have hi: "holds (workers s ! i) = {h}" by auto
  from inv have dq: "distinct (heightQueue s)"
    and wq: "\<forall>k < length (workers s). holds (workers s ! k) \<inter> set (heightQueue s) = {}"
    and d: "\<forall>k < length (workers s). \<forall>j < length (workers s).
           k \<noteq> j \<longrightarrow> holds (workers s ! k) \<inter> holds (workers s ! j) = {}"
    and e: "\<forall>h' \<in> set (heightQueue s). delays_for h' (sleeps s) = []"
    and b: "\<forall>k < length (workers s). backoff_ok opts (sleeps s) (workers s ! k)"
    and sq: "\<forall>h'. delays_for h' (sleeps s)
        = map (nth_backoff opts) [0 ..< length (delays_for h' (sleeps s))]"
    by (simp_all add: backoff_inv_def)
  from b i w have bi: "b = nth_backoff opts (length (delays_for h (sleeps s)))" by auto
  from wq i hi have hq: "h \<notin> set (heightQueue s)" by auto
  have 1: "\<forall>k < length (workers s). holds (workers s' ! k) \<inter> set (heightQueue s) = {}"
    using wq hq by (auto simp: nth)
  have 2: "\<forall>k < length (workers s). \<forall>j < length (workers s).
      k \<noteq> j \<longrightarrow> holds (workers s' ! k) \<inter> holds (workers s' ! j) = {}"
  proof (intro allI impI)
    fix k j assume k: "k < length (workers s)" and j: "j < length (workers s)" and ne: "k \<noteq> j"
    from d k j ne have "holds (workers s ! k) \<inter> holds (workers s ! j) = {}" by blast
    moreover have "holds (workers s' ! k) = holds (workers s ! k)"
      using k hi by (simp add: nth)
    moreover have "holds (workers s' ! j) = holds (workers s ! j)"
      using j hi by (simp add: nth)
    ultimately show "holds (workers s' ! k) \<inter> holds (workers s' ! j) = {}" by simp
  qed
  have 3: "\<forall>h' \<in> set (heightQueue s). delays_for h' (sleeps s') = []"
    using e hq by (auto simp: s' delays_for_snoc)
  have 4: "\<forall>k < length (workers s). backoff_ok opts (sleeps s') (workers s' ! k)"
  proof (intro allI impI)
    fix k assume k: "k < length (workers s)"
    show "backoff_ok opts (sleeps s') (workers s' ! k)"
    proof (cases "k = i")
      case True
      then show ?thesis using k bi by (simp add: nth s' delays_for_snoc)
    next
      case False
      with d k i hi have "h \<notin> holds (workers s ! k)" by force
      then show ?thesis using False k b by (simp add: nth s' backoff_ok_other)
    qed
  qed
  have 5: "\<forall>h'. delays_for h' (sleeps s')
        = map (nth_backoff opts) [0 ..< length (delays_for h' (sleeps s'))]"
  proof
    fix h'
    show "delays_for h' (sleeps s')
        = map (nth_backoff opts) [0 ..< length (delays_for h' (sleeps s'))]"
    proof (cases "h' = h")
      case False
      then show ?thesis using sq by (simp add: s' delays_for_snoc)
    next
      case True
      have "delays_for h (sleeps s') = delays_for h (sleeps s) @ [b]"
        by (simp add: s' delays_for_snoc)
      also have "\<dots> = map (nth_backoff opts) [0 ..< length (delays_for h (sleeps s))]
            @ [nth_backoff opts (length (delays_for h (sleeps s)))]"
        using sq bi by simp
      also have "\<dots> = map (nth_backoff opts) [0 ..< Suc (length (delays_for h (sleeps s)))]"
        by simp
      finally show ?thesis using True by (simp add: s' delays_for_snoc)
    qed
  qed
  from dq 1 2 3 4 5 show ?thesis by (simp add: backoff_inv_def s' len)
qed

lemma backoff_inv_cong:
  "backoff_inv opts s \<Longrightarrow> heightQueue s' = heightQueue s \<Longrightarrow> sleeps s' = sleeps s
   \<Longrightarrow> workers s' = workers s \<Longrightarrow> backoff_inv opts s'"
  by (simp add: backoff_inv_def)

lemma backoff_inv_step:
  assumes inv: "backoff_inv opts s"
  shows "backoff_inv opts (step opts ev s)"
proof (cases "fst ev < length (workers s)")
  case False
  with inv show ?thesis by (simp add: step_def)
next
  case i: True
  from inv i have ok: "backoff_ok opts (sleeps s) (workers s ! fst ev)"
    by (simp add: backoff_inv_def)
  show ?thesis
  proof (cases "workers s ! fst ev")
    case Idle
    show ?thesis
    proof (cases "heightQueue s")
      case Nil
      with i Idle have "step opts ev s = set_worker (fst ev) Returned s"
        by (simp add: step_def getNextHeight_def)
      then show ?thesis
        using backoff_inv_move [OF inv i, of "set_worker (fst ev) Returned s" Returned]
        by (simp add: set_worker_def)
    next
      case (Cons h q)
      with i Idle have "step opts ev s =
          s\<lparr>heightQueue := q, workers := (workers s)[fst ev := Fetching h (retryBackoffMs opts)]\<rparr>"
        by (simp add: step_def getNextHeight_def set_worker_def)
      then show ?thesis using backoff_inv_alloc [OF inv i Idle Cons] by simp
    qed
  next
    case (Fetching h b)
    with i have st: "step opts ev s = worker_step opts (snd ev) (fst ev) (Fetching h b) s"
      by (simp add: step_def)
    show ?thesis
    proof (cases "fetch_ok (snd ev) \<and> sink_ok (snd ev)")
      case True
      then show ?thesis unfolding st
        using backoff_inv_move [OF inv i, of _ "Committing h b"] ok Fetching
        by (simp add: set_worker_def)
    next
      case False
      then show ?thesis unfolding st
        using backoff_inv_catch [OF inv i, of h b] Fetching
        by (auto simp: set_worker_def catch_retry_def)
    qed
  next
    case (Committing h b)
    obtain res s' where m: "markCompleted (write_ok (snd ev)) h s = (res, s')" by force
    note e = markCompleted_effect [OF m]
    have inv': "backoff_inv opts s'" using inv e by (auto intro: backoff_inv_cong)
    have i': "fst ev < length (workers s')" using i e by simp
    have w': "workers s' ! fst ev = Committing h b" using Committing e by simp
    show ?thesis
    proof (cases "res = None")
      case True
      then show ?thesis unfolding step_committing [OF i Committing m]
        using backoff_inv_move [OF inv' i', of _ Idle] by (simp add: set_worker_def)
    next
      case False
      then show ?thesis unfolding step_committing [OF i Committing m]
        using backoff_inv_catch [OF inv' i', of h b] w'
        by (auto simp: set_worker_def catch_retry_def)
    qed
  next
    case (Sleeping h b)
    with i have st: "step opts ev s =
        set_worker (fst ev) (Fetching h (min (b * 2) (retryMaxBackoffMs opts))) s"
      by (simp add: step_def)
    from ok Sleeping have ne: "delays_for h (sleeps s) \<noteq> []"
      and b: "b = nth_backoff opts (length (delays_for h (sleeps s)) - 1)" by simp_all
    from ne obtain n where n: "length (delays_for h (sleeps s)) = Suc n"
      by (cases "delays_for h (sleeps s)") auto
    have "backoff_ok opts (sleeps s) (Fetching h (min (b * 2) (retryMaxBackoffMs opts)))"
      using b n by (simp add: nth_backoff_Suc)
    then show ?thesis unfolding st
      using backoff_inv_move [OF inv i, of _ "Fetching h (min (b * 2) (retryMaxBackoffMs opts))"]
        Sleeping
      by (simp add: set_worker_def)
  next
    case Returned
    with i inv show ?thesis by (simp add: step_def)
  qed
qed

lemma backoff_inv_init: "backoff_inv opts (init opts r)"
proof -
  have "workers (init opts r) = replicate (nat (blockConcurrency opts)) Idle"
    and "sleeps (init opts r) = []"
    by (simp_all add: init_def Let_def)
  then show ?thesis
    by (simp add: backoff_inv_def heightQueue_init delays_for_def)
qed

lemma backoff_inv_reachable: "backoff_inv opts (run opts evs (init opts r))"
  by (induction evs rule: rev_induct)
    (simp_all add: run_def backoff_inv_init backoff_inv_step)

lemma nth_backoff_closed:
  assumes "retryBackoffMs opts \<le> retryMaxBackoffMs opts"
  shows "nth_backoff opts n = min (retryBackoffMs opts * 2 ^ n) (retryMaxBackoffMs opts)"
proof (induction n)
  case 0
  with assms show ?case by (simp add: nth_backoff_def)
next
  case (Suc n)
  define x where "x = retryBackoffMs opts * 2 ^ n"
  have x2: "retryBackoffMs opts * 2 ^ Suc n = x * 2" by (simp add: x_def)
  show ?case
  proof (cases "x \<le> retryMaxBackoffMs opts")
    case True
    with Suc show ?thesis unfolding nth_backoff_Suc x2 x_def [symmetric] by simp
  next
    case False
    have pos: "0 < retryBackoffMs opts"
    proof (rule ccontr)
      assume "\<not> 0 < retryBackoffMs opts"
      then have "retryBackoffMs opts * 2 ^ n \<le> retryBackoffMs opts * 1"
        by (intro mult_left_mono_neg) simp_all
      with assms False show False by (simp add: x_def)
    qed
    with assms have "0 < retryMaxBackoffMs opts" by simp
    with False Suc show ?thesis unfolding nth_backoff_Suc x2 x_def [symmetric] by simp
  qed
qed

section \<open>The claims\<close>

subsection \<open>C1: prefix-only commit\<close>

text \<open>
  Prefix-only commit, for stores that return. Whatever the store does, every height \<open>w\<close>
  written to the checkpoint has all of \<open>scanStart, ..., w\<close> behind it: among the heights
  reported, after any sequence of \<open>markCompleted\<close> calls on a fresh tracker, and among the
  heights processed, in every state of a run. When no write throws, the writes are exactly
  \<open>scanStart, ..., c - 1\<close> for the cursor \<open>c\<close>, where \<open>c - 1\<close> is the largest \<open>k\<close> with
  \<open>[scanStart, k]\<close> reported (\<open>c\<close> itself is not reported); the checkpoint is \<open>c - 1\<close> once
  \<open>scanStart\<close> is reported, and \<open>end\<close> once exactly the heights of the range are.
\<close>

theorem prefix_only_commit:
  "(\<forall>w \<in> set (writes (marks cs (init opts r))).
      \<forall>j \<in> {scanStart (start opts) r .. w}. j \<in> snd ` set cs)
   \<and> (\<forall>w \<in> set (writes (run opts evs (init opts r))).
        \<forall>j \<in> {scanStart (start opts) r .. w}. j \<in> processed (run opts evs (init opts r)))
   \<and> (let st = scanStart (start opts) r;
           s = marks (map (Pair (\<lambda>_. True)) hs) (init opts r);
           c = nextToCommit s
       in writes s = [st .. c - 1]
          \<and> {st ..< c} \<subseteq> set hs \<and> c \<notin> set hs
          \<and> (\<forall>k. {st .. k} \<subseteq> set hs \<longrightarrow> k < c)
          \<and> checkpoint s = (if st \<in> set hs then Some (c - 1) else r)
          \<and> (st \<le> endHeight opts \<and> set hs = {st .. endHeight opts}
               \<longrightarrow> checkpoint s = Some (endHeight opts)))"
proof -
  define st where "st = scanStart (start opts) r"
  have safety: "\<forall>w \<in> set (writes (marks cs (init opts r))). \<forall>j \<in> {st .. w}. j \<in> snd ` set cs"
  proof (intro ballI)
    fix w j assume w: "w \<in> set (writes (marks cs (init opts r)))" and j: "j \<in> {st .. w}"
    from commit_inv_marks [OF commit_inv_init, of opts r cs]
    have i: "commit_inv st (snd ` set cs) (marks cs (init opts r))" by (simp add: st_def)
    with w have "w < nextToCommit (marks cs (init opts r))" by (auto simp: commit_inv_def)
    with j i show "j \<in> snd ` set cs" by (auto simp: commit_inv_def)
  qed
  have run_safety: "\<forall>w \<in> set (writes (run opts evs (init opts r))).
      \<forall>j \<in> {st .. w}. j \<in> processed (run opts evs (init opts r))"
  proof (intro ballI)
    fix w j assume w: "w \<in> set (writes (run opts evs (init opts r)))" and j: "j \<in> {st .. w}"
    have i: "commit_inv st (processed (run opts evs (init opts r))) (run opts evs (init opts r))"
      using run_inv_reachable [of opts r evs] by (simp add: run_inv_def st_def)
    with w have "w < nextToCommit (run opts evs (init opts r))" by (auto simp: commit_inv_def)
    with j i show "j \<in> processed (run opts evs (init opts r))" by (auto simp: commit_inv_def)
  qed
  define s where "s = marks (map (Pair (\<lambda>_. True)) hs) (init opts r)"
  define c where "c = nextToCommit s"
  have img: "snd ` Pair (\<lambda>_. True) ` set hs = set hs" by force
  from commit_inv_marks [OF commit_inv_init, of opts r "map (Pair (\<lambda>_. True)) hs"]
  have i: "commit_inv st (set hs) s" by (simp add: st_def s_def img)
  have "all_pending {} (init opts r)" by (simp add: all_pending_def)
  from all_pending_marks [OF this, of hs]
  have a: "all_pending (set hs) s" by (simp add: s_def)
  have w: "writes s = [st .. c - 1]" and sub: "{st ..< c} \<subseteq> set hs" and le: "st \<le> c"
    using i by (simp_all add: commit_inv_def c_def)
  have notin: "c \<notin> set hs"
    using i a by (auto simp: commit_inv_def all_pending_def c_def)
  have mx: "\<forall>k. {st .. k} \<subseteq> set hs \<longrightarrow> k < c"
  proof (intro allI impI)
    fix k assume k: "{st .. k} \<subseteq> set hs"
    show "k < c"
    proof (rule ccontr)
      assume "\<not> k < c"
      with le have "c \<in> {st .. k}" by simp
      with k notin show False by auto
    qed
  qed
  have n0: "nextToCommit (init opts r) = st" "checkpoint (init opts r) = r"
    by (simp_all add: init_def Let_def st_def)
  have ck0: "checkpoint s = (if c = st then r else Some (c - 1))"
    using checkpoint_marks [of "map (Pair (\<lambda>_. True)) hs" "init opts r"]
    by (simp add: s_def [symmetric] c_def [symmetric] n0)
  have ck: "checkpoint s = (if st \<in> set hs then Some (c - 1) else r)"
  proof (cases "st \<in> set hs")
    case True
    with notin have "c \<noteq> st" by auto
    with ck0 True show ?thesis by simp
  next
    case False
    have "c = st"
    proof (rule ccontr)
      assume "c \<noteq> st"
      with le have "st \<in> {st ..< c}" by simp
      with sub False show False by auto
    qed
    with ck0 False show ?thesis by simp
  qed
  have full: "st \<le> endHeight opts \<and> set hs = {st .. endHeight opts} \<longrightarrow> checkpoint s = Some (endHeight opts)"
  proof (intro impI, elim conjE)
    assume l: "st \<le> endHeight opts" and eq: "set hs = {st .. endHeight opts}"
    from mx eq have gt: "endHeight opts < c" by simp
    have "\<not> endHeight opts + 1 < c"
    proof
      assume "endHeight opts + 1 < c"
      with l have "endHeight opts + 1 \<in> {st ..< c}" by simp
      with sub eq show False by auto
    qed
    with gt have "c = endHeight opts + 1" by simp
    with ck eq l show "checkpoint s = Some (endHeight opts)" by simp
  qed
  show ?thesis
    using safety run_safety w sub notin mx ck full
    unfolding st_def [symmetric] Let_def s_def [symmetric] c_def [symmetric]
    by blast
qed

theorem prefix_only_commit_witness:
  "scanStart (start example_opts) None \<le> endHeight example_opts
   \<and> set [102, 100, 101, 105, 104, 103]
       = {scanStart (start example_opts) None .. endHeight example_opts}
   \<and> checkpoint (marks (map (Pair (\<lambda>_. True)) [102, 100, 101, 105, 104, 103])
         (init example_opts None)) = Some 105
   \<and> writes (marks (map (Pair (\<lambda>_. True)) [102, 100, 101]) (init example_opts None))
       = [100, 101, 102]
   \<and> checkpoint (marks (map (Pair (\<lambda>_. True)) [102, 100, 104]) (init example_opts None))
       = Some 100
   \<and> 101 \<in> set (writes (run example_opts (example_schedule @ [(0, ok_env)])
         (init example_opts None)))
   \<and> 100 \<in> {scanStart (start example_opts) None .. 101}
   \<and> 100 \<in> processed (run example_opts (example_schedule @ [(0, ok_env)])
         (init example_opts None))"
proof -
  have range: "scanStart (start example_opts) None \<le> endHeight example_opts
      \<and> set [102, 100, 101, 105, 104, 103]
          = {scanStart (start example_opts) None .. endHeight example_opts}"
    by (simp add: example_opts_def scanStart_def set_upto [symmetric] upto_rec1 insert_commute)
  note inst = prefix_only_commit [where cs = "[]" and opts = example_opts and r = None
      and hs = "[102, 100, 101, 105, 104, 103]" and evs = "example_schedule @ [(0, ok_env)]",
      unfolded Let_def]
  have full: "checkpoint (marks (map (Pair (\<lambda>_. True)) [102, 100, 101, 105, 104, 103])
      (init example_opts None)) = Some (endHeight example_opts)"
    using inst range by blast
  have calls: "writes (marks (map (Pair (\<lambda>_. True)) [102, 100, 101]) (init example_opts None))
        = [100, 101, 102]
      \<and> checkpoint (marks (map (Pair (\<lambda>_. True)) [102, 100, 104]) (init example_opts None))
        = Some 100"
    by (simp add: init_example marks_def markCompleted_def commit_loop.simps
        setLastProcessedBlockHeight_def)
  have w: "101 \<in> set (writes (run example_opts (example_schedule @ [(0, ok_env)])
      (init example_opts None)))"
    by code_simp
  have j: "100 \<in> {scanStart (start example_opts) None .. 101}"
    by (simp add: example_opts_def scanStart_def)
  from inst w j have p: "100 \<in> processed (run example_opts (example_schedule @ [(0, ok_env)])
      (init example_opts None))"
    by blast
  from range full calls w j p show ?thesis by (simp add: example_opts_def)
qed

text \<open>
  C1 says that the final checkpoint is the end of the longest run of reported heights from
  \<open>scanStart\<close>, whatever the order of the \<open>markCompleted\<close> calls. The code breaks it when a
  checkpoint write throws at a height that was waiting in \<open>completedHeights\<close>. Over \<open>[5, 6]\<close>:
  height 6 is reported first and waits; during \<open>markCompleted(5)\<close> the store writes 5 and
  throws on 6, which the loop has already deleted from the set; the worker's retry reports
  5 again. Both heights have been reported, and in the run processed, and the run
  completes, but the checkpoint is 5 and not \<open>end = 6\<close>: the cursor stands at 6, which is not
  in the set and is not reported again. When the write that throws is for the height being
  reported, the retry does bring the checkpoint to \<open>end\<close>.
\<close>

theorem prefix_commit_stalls_after_failed_write:
  "set (map snd stalled_calls) = {scanStart (start retry_opts) None .. endHeight retry_opts}
   \<and> endHeight retry_opts = 6
   \<and> checkpoint (marks stalled_calls (init retry_opts None)) = Some 5
   \<and> nextToCommit (marks stalled_calls (init retry_opts None)) = 6
   \<and> completedHeights (marks stalled_calls (init retry_opts None)) = {|5|}
   \<and> joined (run retry_opts (failing_schedule @ retry_schedule) (init retry_opts None))
   \<and> processed (run retry_opts (failing_schedule @ retry_schedule) (init retry_opts None))
       = {5, 6}
   \<and> checkpoint (run retry_opts (failing_schedule @ retry_schedule) (init retry_opts None))
       = Some 5
   \<and> checkpoint (marks recovered_calls (init retry_opts None)) = Some 6"
proof -
  have range: "set (map snd stalled_calls)
      = {scanStart (start retry_opts) None .. endHeight retry_opts}"
    by (simp add: stalled_calls_def retry_opts_def scanStart_def set_upto [symmetric] upto_rec1
        insert_commute)
  have calls: "endHeight retry_opts = 6
      \<and> checkpoint (marks stalled_calls (init retry_opts None)) = Some 5
      \<and> nextToCommit (marks stalled_calls (init retry_opts None)) = 6
      \<and> completedHeights (marks stalled_calls (init retry_opts None)) = {|5|}
      \<and> checkpoint (marks recovered_calls (init retry_opts None)) = Some 6"
    by code_simp
  have s: "run retry_opts (failing_schedule @ retry_schedule) (init retry_opts None) =
      \<lparr>heightQueue = [], nextToCommit = 6, completedHeights = {|5|}, checkpoint = Some 5,
       writes = [5], sink = [(6, True), (5, True), (5, True)], sleeps = [(5, 1000)],
       workers = [Returned, Returned]\<rparr>"
    by code_simp
  have run: "joined (run retry_opts (failing_schedule @ retry_schedule) (init retry_opts None))
      \<and> processed (run retry_opts (failing_schedule @ retry_schedule) (init retry_opts None))
          = {5, 6}
      \<and> checkpoint (run retry_opts (failing_schedule @ retry_schedule) (init retry_opts None))
          = Some 5"
    unfolding s by (auto simp: joined_def processed_iff)
  from range calls run show ?thesis by blast
qed

subsection \<open>C2: a failing checkpoint write\<close>

text \<open>
  C2, as the code has it. \<open>await markCompleted(h)\<close> stands inside the worker's \<open>try\<close>
  block, so when the checkpoint write throws during the commit of worker \<open>i\<close>, the worker's
  \<open>catch\<close> block takes the error: the worker sleeps for its current backoff and then
  starts the same height again with the backoff doubled and capped, which is what it does
  when the block source fails. The run goes on.
\<close>

theorem checkpoint_write_failure_retried:
  assumes i: "i < length (workers s)" and w: "workers s ! i = Committing h b"
    and f: "fst (markCompleted (write_ok e) h s) = Some err"
  shows "step opts (i, e) s = catch_retry i h b (snd (markCompleted (write_ok e) h s))
     \<and> workers (step opts (i, e) s) ! i = Sleeping h b
     \<and> sleeps (step opts (i, e) s) = sleeps s @ [(h, b)]
     \<and> \<not> joined (step opts (i, e) s)
     \<and> workers (step opts (i, e') (step opts (i, e) s)) ! i
         = Fetching h (min (b * 2) (retryMaxBackoffMs opts))
     \<and> (\<forall>t. i < length (workers t) \<and> workers t ! i = Fetching h b \<and> \<not> fetch_ok e''
           \<longrightarrow> step opts (i, e'') t = catch_retry i h b t)"
proof -
  obtain s' where m: "markCompleted (write_ok e) h s = (Some err, s')"
    using f by (cases "markCompleted (write_ok e) h s") auto
  note eff = markCompleted_effect [OF m]
  have st: "step opts (i, e) s = catch_retry i h b s'"
    using step_committing [of "(i, e)" s h b "Some err" s' opts] i w m by simp
  have l: "i < length (workers s')" using eff i by simp
  have wi: "workers (step opts (i, e) s) ! i = Sleeping h b"
    using l by (simp add: st catch_retry_def set_worker_def)
  have sl: "sleeps (step opts (i, e) s) = sleeps s @ [(h, b)]"
    using eff by (simp add: st catch_retry_def set_worker_def)
  have li: "i < length (workers (step opts (i, e) s))"
    using l by (simp add: st catch_retry_def set_worker_def)
  have nj: "\<not> joined (step opts (i, e) s)"
    using wi li by (auto simp: joined_def list_all_length)
  have nx: "workers (step opts (i, e') (step opts (i, e) s)) ! i
         = Fetching h (min (b * 2) (retryMaxBackoffMs opts))"
    using wi li by (simp add: step_def set_worker_def)
  have tr: "\<forall>t. i < length (workers t) \<and> workers t ! i = Fetching h b \<and> \<not> fetch_ok e''
           \<longrightarrow> step opts (i, e'') t = catch_retry i h b t"
    by (simp add: step_def)
  from st wi sl nj nx tr show ?thesis by (simp add: m)
qed

theorem checkpoint_write_failure_retried_witness:
  "0 < length (workers (run retry_opts (butlast failing_schedule) (init retry_opts None)))
   \<and> workers (run retry_opts (butlast failing_schedule) (init retry_opts None)) ! 0
       = Committing 5 1000
   \<and> fst (markCompleted (write_ok (write_fails_at 6)) 5
         (run retry_opts (butlast failing_schedule) (init retry_opts None)))
       = Some CheckpointWriteError
   \<and> workers (step retry_opts (0, write_fails_at 6)
         (run retry_opts (butlast failing_schedule) (init retry_opts None))) ! 0
       = Sleeping 5 1000
   \<and> workers (step retry_opts (0, ok_env) (step retry_opts (0, write_fails_at 6)
         (run retry_opts (butlast failing_schedule) (init retry_opts None)))) ! 0
       = Fetching 5 2000
   \<and> workers (run retry_opts [(0, ok_env)] (init retry_opts None)) ! 0 = Fetching 5 1000
   \<and> \<not> fetch_ok fetch_fails
   \<and> step retry_opts (0, fetch_fails) (run retry_opts [(0, ok_env)] (init retry_opts None))
       = catch_retry 0 5 1000 (run retry_opts [(0, ok_env)] (init retry_opts None))"
proof -
  let ?s = "run retry_opts (butlast failing_schedule) (init retry_opts None)"
  let ?t = "run retry_opts [(0, ok_env)] (init retry_opts None)"
  have i: "0 < length (workers ?s)" by code_simp
  have w: "workers ?s ! 0 = Committing 5 1000" by code_simp
  have f: "fst (markCompleted (write_ok (write_fails_at 6)) 5 ?s) = Some CheckpointWriteError"
    by code_simp
  have t: "0 < length (workers ?t) \<and> workers ?t ! 0 = Fetching 5 1000 \<and> \<not> fetch_ok fetch_fails"
    by code_simp
  have m: "min (1000 * 2) (retryMaxBackoffMs retry_opts) = (2000::int)"
    by (simp add: retry_opts_def)
  note th = checkpoint_write_failure_retried [OF i w f, of retry_opts ok_env fetch_fails,
      unfolded m]
  from th t have "workers (step retry_opts (0, write_fails_at 6) ?s) ! 0 = Sleeping 5 1000
      \<and> workers (step retry_opts (0, ok_env) (step retry_opts (0, write_fails_at 6) ?s)) ! 0
          = Fetching 5 2000
      \<and> step retry_opts (0, fetch_fails) ?t = catch_retry 0 5 1000 ?t"
    by blast
  with i w f t show ?thesis by blast
qed

text \<open>
  C2 as stated fails: in the example run the write of 6 throws, worker 0 goes to sleep and
  retries height 5 (the event sink is called a second time for it), and the run completes
  normally.
\<close>

theorem checkpoint_write_failure_counterexample:
  "fst (markCompleted (write_ok (write_fails_at 6)) 5
         (run retry_opts (butlast failing_schedule) (init retry_opts None)))
       = Some CheckpointWriteError
   \<and> workers (run retry_opts failing_schedule (init retry_opts None))
       = [Sleeping 5 1000, Returned]
   \<and> sink (run retry_opts failing_schedule (init retry_opts None)) = [(6, True), (5, True)]
   \<and> sink (run retry_opts (failing_schedule @ retry_schedule) (init retry_opts None))
       = [(6, True), (5, True), (5, True)]
   \<and> sleeps (run retry_opts (failing_schedule @ retry_schedule) (init retry_opts None))
       = [(5, 1000)]
   \<and> joined (run retry_opts (failing_schedule @ retry_schedule) (init retry_opts None))"
  by code_simp

subsection \<open>C3: no double allocation\<close>

text \<open>
  C3. Draining the allocator of a run over \<open>[scanStart, end]\<close> issues exactly the heights
  \<open>scanStart, scanStart + 1, ..., end\<close>, each once and none skipped; after that every
  further call returns \<open>null\<close> and changes nothing. With the workers calling it in any
  interleaving, no height is in two workers' hands, and none that a worker has is still in
  the queue.
\<close>

theorem no_double_allocation:
  "fst (drain (init opts r)) = [scanStart (start opts) r .. endHeight opts]
   \<and> mset (fst (drain (init opts r))) = mset [scanStart (start opts) r .. endHeight opts]
   \<and> distinct (fst (drain (init opts r)))
   \<and> set (fst (drain (init opts r))) = {scanStart (start opts) r .. endHeight opts}
   \<and> getNextHeight (snd (drain (init opts r))) = (None, snd (drain (init opts r)))
   \<and> drain (snd (drain (init opts r))) = ([], snd (drain (init opts r)))
   \<and> (let s = run opts evs (init opts r)
       in distinct (heightQueue s)
          \<and> (\<forall>i < length (workers s). holds (workers s ! i) \<inter> set (heightQueue s) = {})
          \<and> (\<forall>i < length (workers s). \<forall>j < length (workers s).
                i \<noteq> j \<longrightarrow> holds (workers s ! i) \<inter> holds (workers s ! j) = {}))"
proof -
  have queue: "fst (drain (init opts r)) = [scanStart (start opts) r .. endHeight opts]
      \<and> mset (fst (drain (init opts r))) = mset [scanStart (start opts) r .. endHeight opts]
      \<and> distinct (fst (drain (init opts r)))
      \<and> set (fst (drain (init opts r))) = {scanStart (start opts) r .. endHeight opts}
      \<and> getNextHeight (snd (drain (init opts r))) = (None, snd (drain (init opts r)))
      \<and> drain (snd (drain (init opts r))) = ([], snd (drain (init opts r)))"
    by (simp add: drain_queue heightQueue_init getNextHeight_def)
  have "backoff_inv opts (run opts evs (init opts r))" by (rule backoff_inv_reachable)
  then have "distinct (heightQueue (run opts evs (init opts r)))
      \<and> (\<forall>i < length (workers (run opts evs (init opts r))).
            holds (workers (run opts evs (init opts r)) ! i)
              \<inter> set (heightQueue (run opts evs (init opts r))) = {})
      \<and> (\<forall>i < length (workers (run opts evs (init opts r))).
            \<forall>j < length (workers (run opts evs (init opts r))).
              i \<noteq> j \<longrightarrow> holds (workers (run opts evs (init opts r)) ! i)
                        \<inter> holds (workers (run opts evs (init opts r)) ! j) = {})"
    by (simp add: backoff_inv_def)
  with queue show ?thesis unfolding Let_def by blast
qed

theorem no_double_allocation_witness:
  "fst (drain (init example_opts None)) = [100, 101, 102, 103, 104, 105]
   \<and> (0::nat) < length (workers (run example_opts [(0, ok_env), (1, ok_env)]
         (init example_opts None)))
   \<and> (1::nat) < length (workers (run example_opts [(0, ok_env), (1, ok_env)]
         (init example_opts None)))
   \<and> (0::nat) \<noteq> 1
   \<and> workers (run example_opts [(0, ok_env), (1, ok_env)] (init example_opts None))
       = [Fetching 100 1000, Fetching 101 1000]
   \<and> holds (workers (run example_opts [(0, ok_env), (1, ok_env)] (init example_opts None)) ! 0)
       \<inter> holds (workers (run example_opts [(0, ok_env), (1, ok_env)]
           (init example_opts None)) ! 1) = {}"
proof -
  let ?s = "run example_opts [(0, ok_env), (1, ok_env)] (init example_opts None)"
  note inst = no_double_allocation [where opts = example_opts and r = None
      and evs = "[(0, ok_env), (1, ok_env)]",
      unfolded Let_def]
  have d: "fst (drain (init example_opts None)) = [100, 101, 102, 103, 104, 105]"
  proof -
    from inst have "fst (drain (init example_opts None))
        = [scanStart (start example_opts) None .. endHeight example_opts]"
      by blast
    also have "\<dots> = [100, 101, 102, 103, 104, 105]" by code_simp
    finally show ?thesis .
  qed
  have w: "workers ?s = [Fetching 100 1000, Fetching 101 1000]" by code_simp
  then have l: "(0::nat) < length (workers ?s) \<and> (1::nat) < length (workers ?s) \<and> (0::nat) \<noteq> 1"
    by simp
  with inst have "holds (workers ?s ! 0) \<inter> holds (workers ?s ! 1) = {}" by blast
  with d w l show ?thesis by blast
qed

subsection \<open>C4: start resolution\<close>

text \<open>
  C4. The resolved start is \<open>max(start, c)\<close> for a stored checkpoint \<open>c\<close> and \<open>start\<close> without
  one, and the tracker starts there; so with a stored checkpoint \<open>c\<close>, no state of the run
  has written a height below \<open>c\<close> or holds a checkpoint below \<open>c\<close>.
\<close>

theorem start_resolution:
  "scanStart st r = (case r of None \<Rightarrow> st | Some c \<Rightarrow> max st c)
   \<and> nextToCommit (init opts r) = scanStart (start opts) r
   \<and> (\<forall>c. r = Some c \<longrightarrow>
         (\<forall>w \<in> set (writes (run opts evs (init opts r))). c \<le> w)
         \<and> (\<forall>k. checkpoint (run opts evs (init opts r)) = Some k \<longrightarrow> c \<le> k))"
proof -
  define s where "s = run opts evs (init opts r)"
  have inv: "run_inv (scanStart (start opts) r) r s" unfolding s_def by (rule run_inv_reachable)
  have 1: "scanStart st r = (case r of None \<Rightarrow> st | Some c \<Rightarrow> max st c)"
    by (simp add: scanStart_def split: option.splits)
  have 2: "nextToCommit (init opts r) = scanStart (start opts) r"
    by (simp add: init_def Let_def)
  have 3: "(\<forall>w \<in> set (writes s). c \<le> w) \<and> (\<forall>k. checkpoint s = Some k \<longrightarrow> c \<le> k)"
    if r: "r = Some c" for c
  proof -
    have le: "c \<le> scanStart (start opts) r" using r by (simp add: scanStart_def)
    from inv have w: "writes s = [scanStart (start opts) r .. nextToCommit s - 1]"
      and c: "scanStart (start opts) r \<le> nextToCommit s"
      and ck: "checkpoint s = (if nextToCommit s = scanStart (start opts) r then r
                 else Some (nextToCommit s - 1))"
      by (simp_all add: run_inv_def commit_inv_def)
    from w le have "\<forall>w \<in> set (writes s). c \<le> w" by auto
    moreover from ck c le r have "\<forall>k. checkpoint s = Some k \<longrightarrow> c \<le> k"
      by (auto split: if_splits)
    ultimately show ?thesis by simp
  qed
  from 1 2 3 show ?thesis unfolding s_def by blast
qed

theorem start_resolution_witness:
  "scanStart 100 (Some 103) = 103 \<and> scanStart 100 (Some 42) = 100 \<and> scanStart 100 None = 100
   \<and> writes (step example_opts (0, ok_env)
        (run example_opts example_schedule (init example_opts (Some 100)))) = [100, 101]
   \<and> (100::int) \<le> 100 \<and> (100::int) \<le> 101"
proof -
  have s: "scanStart 100 (Some 103) = 103 \<and> scanStart 100 (Some 42) = 100
      \<and> scanStart 100 None = 100"
    using start_resolution [of 100 "Some 103"] start_resolution [of 100 "Some 42"]
      start_resolution [of 100 None] by simp
  have w: "writes (run example_opts (example_schedule @ [(0, ok_env)])
      (init example_opts (Some 100))) = [100, 101]"
    by code_simp
  have "\<forall>w \<in> set (writes (run example_opts (example_schedule @ [(0, ok_env)])
      (init example_opts (Some 100)))). 100 \<le> w"
    using start_resolution [of 0 "Some 100" example_opts "example_schedule @ [(0, ok_env)]"]
    by blast
  with w have "(100::int) \<le> 100 \<and> (100::int) \<le> 101" by simp
  moreover have "writes (step example_opts (0, ok_env)
      (run example_opts example_schedule (init example_opts (Some 100)))) = [100, 101]"
    using w by (simp add: run_snoc)
  ultimately show ?thesis using s by blast
qed

subsection \<open>C5: duplicate completion\<close>

text \<open>
  C5, as the code has it. Reporting again a height \<open>h\<close> below the cursor returns normally,
  moves neither the cursor nor the checkpoint and writes nothing; it does add \<open>h\<close> to
  \<open>completedHeights\<close>, where nothing removes it again.
\<close>

theorem duplicate_completion:
  assumes "h < nextToCommit (marks cs (init opts r))"
  shows "markCompleted wr h (marks cs (init opts r)) =
           (None, (marks cs (init opts r))
                    \<lparr>completedHeights := finsert h (completedHeights (marks cs (init opts r)))\<rparr>)"
proof -
  define s where "s = marks cs (init opts r)"
  from commit_inv_marks [OF commit_inv_init, of opts r cs]
  have "nextToCommit s |\<notin>| completedHeights s" by (simp add: commit_inv_def s_def)
  with assms have "nextToCommit s |\<notin>| finsert h (completedHeights s)" by (auto simp: s_def)
  then show ?thesis
    unfolding s_def [symmetric] markCompleted_def by (subst commit_loop.simps) simp
qed

theorem duplicate_completion_witness:
  "(100::int) < nextToCommit (marks [(\<lambda>_. True, 100)] (init example_opts None))
   \<and> markCompleted (\<lambda>_. True) 100 (marks [(\<lambda>_. True, 100)] (init example_opts None)) =
       (None, \<lparr>heightQueue = [100, 101, 102, 103, 104, 105], nextToCommit = 101,
          completedHeights = {|100|}, checkpoint = Some 100, writes = [100], sink = [],
          sleeps = [], workers = [Idle, Idle]\<rparr>)"
proof -
  have m: "marks [(\<lambda>_. True, 100)] (init example_opts None) =
      \<lparr>heightQueue = [100, 101, 102, 103, 104, 105], nextToCommit = 101,
       completedHeights = {||}, checkpoint = Some 100, writes = [100], sink = [],
       sleeps = [], workers = [Idle, Idle]\<rparr>"
    by (simp add: init_example marks_def markCompleted_def commit_loop.simps
        setLastProcessedBlockHeight_def)
  then have lt: "(100::int) < nextToCommit (marks [(\<lambda>_. True, 100)] (init example_opts None))"
    by simp
  from duplicate_completion [OF lt, of "\<lambda>_. True"] lt show ?thesis by (simp add: m)
qed

text \<open>
  C5 as stated fails: after \<open>markCompleted(100)\<close> has flushed height 100, a second
  \<open>markCompleted(100)\<close> changes the state, and leaves 100 in the set below the cursor 101.
\<close>

theorem duplicate_completion_counterexample:
  "snd (markCompleted (\<lambda>_. True) 100 (marks [(\<lambda>_. True, 100)] (init example_opts None)))
     \<noteq> marks [(\<lambda>_. True, 100)] (init example_opts None)
   \<and> 100 |\<in>| completedHeights
        (snd (markCompleted (\<lambda>_. True) 100 (marks [(\<lambda>_. True, 100)] (init example_opts None))))
   \<and> nextToCommit
        (snd (markCompleted (\<lambda>_. True) 100 (marks [(\<lambda>_. True, 100)] (init example_opts None))))
       = 101"
  by (simp add: init_example marks_def markCompleted_def commit_loop.simps
      setLastProcessedBlockHeight_def)

subsection \<open>C6: backoff growth and reset\<close>

text \<open>
  C6, as the code has it. In every state of a run, under any schedule and whichever call
  failed, the \<open>n\<close>-th delay slept for a height \<open>h\<close> is \<open>retryBackoffMs\<close> doubled and capped
  \<open>n\<close> times: the first is \<open>retryBackoffMs\<close> itself (uncapped), each next one is
  \<open>min(2 * previous, retryMaxBackoffMs)\<close>, and when \<open>retryBackoffMs \<le> retryMaxBackoffMs\<close>
  the \<open>n\<close>-th is \<open>min(retryBackoffMs * 2^n, retryMaxBackoffMs)\<close>. A worker that takes a new
  height starts it with \<open>backoff = retryBackoffMs\<close>.
\<close>

theorem backoff_growth_and_reset:
  assumes "n < length (delays_for h (sleeps (run opts evs (init opts r))))"
  shows "delays_for h (sleeps (run opts evs (init opts r))) ! n
           = ((\<lambda>b. min (b * 2) (retryMaxBackoffMs opts)) ^^ n) (retryBackoffMs opts)
     \<and> delays_for h (sleeps (run opts evs (init opts r))) ! 0 = retryBackoffMs opts
     \<and> (Suc n < length (delays_for h (sleeps (run opts evs (init opts r)))) \<longrightarrow>
          delays_for h (sleeps (run opts evs (init opts r))) ! Suc n
            = min (delays_for h (sleeps (run opts evs (init opts r))) ! n * 2)
                (retryMaxBackoffMs opts))
     \<and> (retryBackoffMs opts \<le> retryMaxBackoffMs opts \<longrightarrow>
          delays_for h (sleeps (run opts evs (init opts r))) ! n
            = min (retryBackoffMs opts * 2 ^ n) (retryMaxBackoffMs opts))
     \<and> (\<forall>s i e h' q. i < length (workers s) \<and> workers s ! i = Idle \<and> heightQueue s = h' # q
          \<longrightarrow> workers (step opts (i, e) s) ! i = Fetching h' (retryBackoffMs opts))"
proof -
  define ds where "ds = delays_for h (sleeps (run opts evs (init opts r)))"
  have "backoff_inv opts (run opts evs (init opts r))" by (rule backoff_inv_reachable)
  then have ds: "ds = map (nth_backoff opts) [0 ..< length ds]"
    by (simp add: backoff_inv_def ds_def)
  from assms have n: "n < length ds" by (simp add: ds_def)
  have nth: "ds ! k = nth_backoff opts k" if "k < length ds" for k
    using that by (subst ds) simp
  have 1: "ds ! n = ((\<lambda>b. min (b * 2) (retryMaxBackoffMs opts)) ^^ n) (retryBackoffMs opts)"
    using nth [OF n] by (simp add: nth_backoff_def)
  have 2: "ds ! 0 = retryBackoffMs opts"
  proof -
    from n have "0 < length ds" by (cases ds) simp_all
    from nth [OF this] show ?thesis by (simp add: nth_backoff_def)
  qed
  have 3: "Suc n < length ds \<longrightarrow> ds ! Suc n = min (ds ! n * 2) (retryMaxBackoffMs opts)"
    using nth [of "Suc n"] nth [OF n] by (simp add: nth_backoff_Suc)
  have 4: "retryBackoffMs opts \<le> retryMaxBackoffMs opts \<longrightarrow>
      ds ! n = min (retryBackoffMs opts * 2 ^ n) (retryMaxBackoffMs opts)"
    using nth [OF n] by (simp add: nth_backoff_closed)
  have 5: "\<forall>s i e h' q. i < length (workers s) \<and> workers s ! i = Idle \<and> heightQueue s = h' # q
      \<longrightarrow> workers (step opts (i, e) s) ! i = Fetching h' (retryBackoffMs opts)"
    by (simp add: step_def getNextHeight_def set_worker_def)
  from 1 2 3 4 5 show ?thesis unfolding ds_def by blast
qed

theorem backoff_growth_and_reset_witness:
  "4 < length (delays_for 5 (sleeps (run retry_opts backoff_schedule (init retry_opts None))))
   \<and> retryBackoffMs retry_opts \<le> retryMaxBackoffMs retry_opts
   \<and> delays_for 5 (sleeps (run retry_opts backoff_schedule (init retry_opts None)))
       = [1000, 2000, 4000, 8000, 10000]
   \<and> delays_for 5 (sleeps (run retry_opts backoff_schedule (init retry_opts None))) ! 4
       = min (retryBackoffMs retry_opts * 2 ^ 4) (retryMaxBackoffMs retry_opts)
   \<and> delays_for 6 (sleeps (run retry_opts backoff_schedule (init retry_opts None))) = [1000]"
proof -
  have l: "4 < length (delays_for 5 (sleeps (run retry_opts backoff_schedule (init retry_opts None))))"
    by code_simp
  have le: "retryBackoffMs retry_opts \<le> retryMaxBackoffMs retry_opts"
    by (simp add: retry_opts_def)
  have d: "delays_for 5 (sleeps (run retry_opts backoff_schedule (init retry_opts None)))
       = [1000, 2000, 4000, 8000, 10000]
      \<and> delays_for 6 (sleeps (run retry_opts backoff_schedule (init retry_opts None))) = [1000]"
    by code_simp
  from backoff_growth_and_reset [OF l] le
  have "delays_for 5 (sleeps (run retry_opts backoff_schedule (init retry_opts None))) ! 4
       = min (retryBackoffMs retry_opts * 2 ^ 4) (retryMaxBackoffMs retry_opts)"
    by blast
  with l le d show ?thesis by blast
qed

text \<open>
  C6 as stated fails when the base delay is above the maximum: the first delay is the base
  delay 2000, not \<open>min(base * 2^0, max) = 1000\<close>.
\<close>

theorem backoff_growth_and_reset_counterexample:
  "delays_for 5 (sleeps (run inverted_opts [(0, ok_env), (0, fetch_fails)]
      (init inverted_opts None))) = [2000]
   \<and> retryBackoffMs inverted_opts = 2000
   \<and> min (retryBackoffMs inverted_opts * 2 ^ 0) (retryMaxBackoffMs inverted_opts) = 1000
   \<and> delays_for 5 (sleeps (run inverted_opts [(0, ok_env), (0, fetch_fails)]
        (init inverted_opts None))) ! 0
      \<noteq> min (retryBackoffMs inverted_opts * 2 ^ 0) (retryMaxBackoffMs inverted_opts)"
  by code_simp

subsection \<open>C7: commit cursor monotonicity\<close>

text \<open>
  C7. In every state \<open>s\<close> of a run and for every next step to \<open>s'\<close>: the heights written so
  far are \<open>scanStart, scanStart + 1, ...\<close> up to the height below the cursor, strictly
  increasing; the cursor never moves back; a step writes exactly the heights the cursor
  moves over, one write for each unit the cursor advances; the checkpoint is the stored
  one until the cursor moves and the height below the cursor afterwards, and never
  decreases; and a step of a worker that is not inside \<open>markCompleted\<close> changes neither
  cursor nor checkpoint.
\<close>

theorem commit_cursor_monotone:
  "(let st = scanStart (start opts) r;
        s = run opts evs (init opts r);
        s' = step opts ev s
    in writes s = [st .. nextToCommit s - 1]
       \<and> sorted_wrt (<) (writes s)
       \<and> nextToCommit s \<le> nextToCommit s'
       \<and> writes s' = writes s @ [nextToCommit s .. nextToCommit s' - 1]
       \<and> int (length (writes s')) - int (length (writes s)) = nextToCommit s' - nextToCommit s
       \<and> checkpoint s = (if nextToCommit s = st then r else Some (nextToCommit s - 1))
       \<and> (\<forall>c k. checkpoint s = Some c \<and> checkpoint s' = Some k \<longrightarrow> c \<le> k)
       \<and> ((\<forall>h b. workers s ! fst ev \<noteq> Committing h b) \<longrightarrow>
            nextToCommit s' = nextToCommit s \<and> writes s' = writes s
            \<and> checkpoint s' = checkpoint s))"
proof -
  define st where "st = scanStart (start opts) r"
  define s where "s = run opts evs (init opts r)"
  define s' where "s' = step opts ev s"
  have inv: "run_inv st r s" unfolding st_def s_def by (rule run_inv_reachable)
  then have inv': "run_inv st r s'" unfolding s'_def by (rule run_inv_step)
  have w: "writes s = [st .. nextToCommit s - 1]" and le: "st \<le> nextToCommit s"
    and ck: "checkpoint s = (if nextToCommit s = st then r else Some (nextToCommit s - 1))"
    using inv by (simp_all add: run_inv_def commit_inv_def)
  have ck': "checkpoint s' = (if nextToCommit s' = st then r else Some (nextToCommit s' - 1))"
    using inv' by (simp add: run_inv_def)
  have sorted: "sorted_wrt (<) (writes s)" by (simp add: w)
  have mono: "nextToCommit s \<le> nextToCommit s'"
    and ext: "writes s' = writes s @ [nextToCommit s .. nextToCommit s' - 1]"
    using step_cursor [of s opts ev] by (simp_all add: s'_def)
  have len: "int (length (writes s')) - int (length (writes s)) = nextToCommit s' - nextToCommit s"
    using mono by (simp add: ext)
  have r_le: "c \<le> st" if "r = Some c" for c
    using that by (simp add: st_def scanStart_def)
  have nondecr: "\<forall>c k. checkpoint s = Some c \<and> checkpoint s' = Some k \<longrightarrow> c \<le> k"
    using ck ck' le mono r_le by (auto split: if_splits)
  have frame: "(\<forall>h b. workers s ! fst ev \<noteq> Committing h b) \<longrightarrow>
      nextToCommit s' = nextToCommit s \<and> writes s' = writes s \<and> checkpoint s' = checkpoint s"
    using step_not_committing [of s ev opts] by (simp add: s'_def)
  show ?thesis
    unfolding Let_def st_def [symmetric] s_def [symmetric] s'_def [symmetric]
    using w sorted mono ext len ck nondecr frame by blast
qed

theorem commit_cursor_monotone_witness:
  "checkpoint (run example_opts example_schedule (init example_opts (Some 100))) = Some 100
   \<and> checkpoint (step example_opts (0, ok_env)
        (run example_opts example_schedule (init example_opts (Some 100)))) = Some 101
   \<and> (100::int) \<le> 101
   \<and> writes (step example_opts (0, ok_env)
        (run example_opts example_schedule (init example_opts (Some 100)))) = [] @ [100 .. 102 - 1]
   \<and> workers (run example_opts example_schedule (init example_opts (Some 100))) ! 1 = Idle
   \<and> writes (step example_opts (1, ok_env)
        (run example_opts example_schedule (init example_opts (Some 100)))) = []"
proof -
  let ?s = "run example_opts example_schedule (init example_opts (Some 100))"
  have c: "checkpoint ?s = Some 100 \<and> checkpoint (step example_opts (0, ok_env) ?s) = Some 101"
    by code_simp
  have "\<forall>c k. checkpoint ?s = Some c \<and> checkpoint (step example_opts (0, ok_env) ?s) = Some k
      \<longrightarrow> c \<le> k"
    using commit_cursor_monotone [of example_opts "Some 100" example_schedule "(0, ok_env)"]
    unfolding Let_def by blast
  with c have le: "(100::int) \<le> 101" by blast
  have n: "writes ?s = [] \<and> nextToCommit ?s = 100
      \<and> nextToCommit (step example_opts (0, ok_env) ?s) = 102"
    by code_simp
  have "writes (step example_opts (0, ok_env) ?s)
      = writes ?s @ [nextToCommit ?s .. nextToCommit (step example_opts (0, ok_env) ?s) - 1]"
    using commit_cursor_monotone [of example_opts "Some 100" example_schedule "(0, ok_env)"]
    unfolding Let_def by blast
  with n have w: "writes (step example_opts (0, ok_env) ?s) = [] @ [100 .. 102 - 1]"
    by simp
  have idle: "workers ?s ! 1 = Idle" by code_simp
  then have "\<forall>h b. workers ?s ! fst (1::nat, ok_env) \<noteq> Committing h b" by simp
  then have "writes (step example_opts (1, ok_env) ?s) = writes ?s"
    using commit_cursor_monotone [of example_opts "Some 100" example_schedule "(1, ok_env)"]
    unfolding Let_def by blast
  with n have f: "writes (step example_opts (1, ok_env) ?s) = []" by simp
  from c le w idle f show ?thesis by blast
qed

subsection \<open>C8: empty range\<close>

text \<open>
  C8. When the resolved start is above \<open>end\<close>, the queue is empty from the start and the
  allocator issues nothing; in every state of the run, under any schedule, the event sink
  has not been called, nothing was written or slept, the checkpoint is the stored one, and
  each worker is either still to make its first \<open>getNextHeight\<close> call or has returned.
  Once every worker has run, all have returned and the join completes as for any other
  run.
\<close>

theorem empty_range:
  assumes "endHeight opts < scanStart (start opts) r"
  shows "heightQueue (init opts r) = []
     \<and> fst (drain (init opts r)) = []
     \<and> (let s = run opts evs (init opts r)
        in heightQueue s = [] \<and> sink s = [] \<and> writes s = [] \<and> sleeps s = []
           \<and> checkpoint s = r
           \<and> length (workers s) = nat (blockConcurrency opts)
           \<and> (\<forall>w \<in> set (workers s). w = Idle \<or> w = Returned)
           \<and> ({..< nat (blockConcurrency opts)} \<subseteq> fst ` set evs \<longrightarrow> joined s))"
proof -
  have q: "heightQueue (init opts r) = []"
    using assms by (simp add: heightQueue_init)
  have ws: "\<forall>w \<in> set (workers (init opts r)). w = Idle"
    by (simp add: init_def Let_def)
  have i: "sink (init opts r) = [] \<and> writes (init opts r) = [] \<and> sleeps (init opts r) = []
      \<and> checkpoint (init opts r) = r \<and> length (workers (init opts r)) = nat (blockConcurrency opts)"
    by (simp add: init_def Let_def)
  from run_empty_queue [OF q ws, of opts evs]
  obtain ws' where r: "run opts evs (init opts r) = (init opts r)\<lparr>workers := ws'\<rparr>"
    and l: "length ws' = length (workers (init opts r))"
    and e: "\<forall>i < length ws'. (i \<in> fst ` set evs \<longrightarrow> ws' ! i = Returned) \<and> (i \<notin> fst ` set evs \<longrightarrow> ws' ! i = Idle)"
    by blast
  have a: "\<forall>w \<in> set ws'. w = Idle \<or> w = Returned"
    using e by (auto simp: in_set_conv_nth)
  have j: "{..< nat (blockConcurrency opts)} \<subseteq> fst ` set evs \<longrightarrow> joined (run opts evs (init opts r))"
  proof
    assume sub: "{..< nat (blockConcurrency opts)} \<subseteq> fst ` set evs"
    have "\<forall>i < length ws'. ws' ! i = Returned"
    proof (intro allI impI)
      fix i assume "i < length ws'"
      with l i sub have "i \<in> fst ` set evs" by auto
      with e \<open>i < length ws'\<close> show "ws' ! i = Returned" by auto
    qed
    then show "joined (run opts evs (init opts r))"
      by (simp add: joined_def r list_all_length)
  qed
  show ?thesis
    using q i l a j unfolding Let_def by (simp add: drain_queue r)
qed

theorem empty_range_witness:
  "endHeight example_opts < scanStart (start example_opts) (Some 200)
   \<and> {..< nat (blockConcurrency example_opts)} \<subseteq> fst ` set [(0::nat, ok_env), (1, ok_env)]
   \<and> joined (run example_opts [(0, ok_env), (1, ok_env)] (init example_opts (Some 200)))
   \<and> sink (run example_opts [(0, ok_env), (1, ok_env)] (init example_opts (Some 200))) = []
   \<and> writes (run example_opts [(0, ok_env), (1, ok_env)] (init example_opts (Some 200))) = []
   \<and> workers (run example_opts [(0, ok_env), (1, ok_env)] (init example_opts (Some 200)))
       = [Returned, Returned]"
proof -
  have h: "endHeight example_opts < scanStart (start example_opts) (Some 200)"
    by (simp add: example_opts_def scanStart_def)
  have c: "{..< nat (blockConcurrency example_opts)} \<subseteq> fst ` set [(0::nat, ok_env), (1, ok_env)]"
    by (auto simp: example_opts_def)
  have w: "workers (run example_opts [(0, ok_env), (1, ok_env)] (init example_opts (Some 200)))
       = [Returned, Returned]"
    by code_simp
  from empty_range [OF h, of "[(0, ok_env), (1, ok_env)]"] c h w
  show ?thesis unfolding Let_def by blast
qed

subsection \<open>C9: the naive variant\<close>

text \<open>
  C9. The naive variant has an interleaving after which the checkpoint holds a height \<open>h\<close>
  written in this run while a lower height \<open>l\<close> of the range has not been processed.
\<close>

theorem naive_checkpoint_unsafe:
  "\<exists>evs h l.
     main race_consts None = Inr (spawn race_consts None)
     \<and> stored (capture_run race_consts evs (spawn race_consts None)) = Some h
     \<and> h \<in> set (stores (capture_run race_consts evs (spawn race_consts None)))
     \<and> height_of (START race_consts) \<le> l \<and> l < h
     \<and> (l, True) \<notin> set (sunk (capture_run race_consts evs (spawn race_consts None)))"
proof (intro exI conjI)
  show "main race_consts None = Inr (spawn race_consts None)" by code_simp
  show "stored (capture_run race_consts race_schedule (spawn race_consts None)) = Some 100"
    by code_simp
  show "100 \<in> set (stores (capture_run race_consts race_schedule (spawn race_consts None)))"
    by code_simp
  show "height_of (START race_consts) \<le> 99" by code_simp
  show "(99::int) < 100" by simp
  show "(99, True) \<notin> set (sunk (capture_run race_consts race_schedule (spawn race_consts None)))"
    by code_simp
qed

subsection \<open>C10: zero heights\<close>

text \<open>
  C10. \<open>main\<close> throws the missing-configuration error exactly when the start or the end
  height is zero or \<open>NaN\<close>; it then builds no state and spawns no worker. A run that starts
  has a start and an end height other than zero.
\<close>

theorem zero_height_rejected:
  "(main c r = Inl MissingConfiguration
      \<longleftrightarrow> START c = Num 0 \<or> START c = NaN \<or> END c = Num 0 \<or> END c = NaN)
   \<and> (START c = Num 0 \<or> START c = NaN \<or> END c = Num 0 \<or> END c = NaN
        \<longrightarrow> (\<forall>s. main c r \<noteq> Inr s))
   \<and> (\<forall>s. main c r = Inr s \<longrightarrow>
         s = spawn c r \<and> height_of (START c) \<noteq> 0 \<and> height_of (END c) \<noteq> 0)"
proof -
  have "missing_configuration c \<longleftrightarrow> START c = Num 0 \<or> START c = NaN \<or> END c = Num 0 \<or> END c = NaN"
    by (cases "START c"; cases "END c") (auto simp: missing_configuration_def truthy_array_def)
  then show ?thesis
    by (cases "START c"; cases "END c") (auto simp: main_def)
qed

theorem zero_height_rejected_witness:
  "START (race_consts\<lparr>START := Num 0\<rparr>) = Num 0
   \<and> main (race_consts\<lparr>START := Num 0\<rparr>) None = Inl MissingConfiguration
   \<and> END (race_consts\<lparr>END := NaN\<rparr>) = NaN
   \<and> main (race_consts\<lparr>END := NaN\<rparr>) None = Inl MissingConfiguration
   \<and> main race_consts None = Inr (spawn race_consts None)
   \<and> height_of (START race_consts) = 99"
proof -
  have z: "START (race_consts\<lparr>START := Num 0\<rparr>) = Num 0" by simp
  have n: "END (race_consts\<lparr>END := NaN\<rparr>) = NaN" by simp
  have "main (race_consts\<lparr>START := Num 0\<rparr>) None = Inl MissingConfiguration"
    using zero_height_rejected [of "race_consts\<lparr>START := Num 0\<rparr>" None] z by blast
  moreover have "main (race_consts\<lparr>END := NaN\<rparr>) None = Inl MissingConfiguration"
    using zero_height_rejected [of "race_consts\<lparr>END := NaN\<rparr>" None] n by blast
  moreover have "main race_consts None = Inr (spawn race_consts None)
      \<and> height_of (START race_consts) = 99"
    by code_simp
  ultimately show ?thesis using z n by blast
qed

end
